theory Spec2Isabelle
  imports Main "HOL-Library.Sublist"
begin

section \<open>Strings and characters\<close>

text \<open>
  A Python \<open>str\<close> is modelled as a \<open>string\<close>, one \<open>char\<close> per code point; the model
  covers the code points below 256. On these, the regular-expression class \<open>\s\<close> and
  \<open>str.strip()\<close> agree on what whitespace is: the code points 9 to 13, 28 to 32, 133
  and 160. The classes \<open>[A-Z]\<close> and \<open>[0-9]\<close> are the ASCII ranges, and below 256 the class
  \<open>\d\<close> has no other member than \<open>[0-9]\<close>.
\<close>

definition isspace :: "char \<Rightarrow> bool" where
  "isspace c = (let n = (of_char c :: nat) in
     (9 \<le> n \<and> n \<le> 13) \<or> (28 \<le> n \<and> n \<le> 32) \<or> n = 133 \<or> n = 160)"

definition is_upper :: "char \<Rightarrow> bool" where
  "is_upper c = (let n = (of_char c :: nat) in 65 \<le> n \<and> n \<le> 90)"

definition is_digit :: "char \<Rightarrow> bool" where
  "is_digit c = (let n = (of_char c :: nat) in 48 \<le> n \<and> n \<le> 57)"

text \<open>\<open>s.strip()\<close>: leading and trailing whitespace removed.\<close>

definition strip :: "string \<Rightarrow> string" where
  "strip s = rev (dropWhile isspace (rev (dropWhile isspace s)))"

section \<open>The tokenizer of files-to-codes mappings\<close>

datatype token_type = CODE | FILE | COLON | COMMA | WS | EOF

datatype token = Token (tp: token_type) (src: string)

datatype error = AssertionError | ExecutionError string

text \<open>
  Each compiled pattern of \<open>_FILE_LIST_TOKEN_TYPES\<close> is modelled by the function that
  \<open>token_re.match(value, i)\<close> computes on the rest of the input \<open>value[i:]\<close>: the length
  of the match, or \<open>None\<close>. None of the patterns looks behind the cursor, so the rest of
  the input decides the match.

  The quantifiers are greedy, and backtracking never finds a shorter match: giving back
  a character of \<open>[A-Z]+\<close>, \<open>[0-9]*\<close> or \<open>\s*\<close> leaves a character of that same class
  at the cursor, where the pattern goes on with a look-ahead for whitespace or a comma
  (or with the literal colon or comma). So each pattern matches the longest run or
  does not match at all.
\<close>

text \<open>The look-ahead \<open>(?=$|\s|,)\<close>: the end of the input, whitespace or a comma.\<close>

definition lookahead_sep :: "string \<Rightarrow> bool" where
  "lookahead_sep r = (case r of [] \<Rightarrow> True | c # _ \<Rightarrow> isspace c \<or> c = CHR '','')"

text \<open>\<open>[A-Z]+[0-9]*(?=$|\s|,)\<close>\<close>

definition match_code :: "string \<Rightarrow> nat option" where
  "match_code s =
     (let u = takeWhile is_upper s; r = dropWhile is_upper s;
          d = takeWhile is_digit r; r' = dropWhile is_digit r
      in if u \<noteq> [] \<and> lookahead_sep r' then Some (length u + length d) else None)"

text \<open>\<open>[^\s:,]+\<close>\<close>

definition is_file_char :: "char \<Rightarrow> bool" where
  "is_file_char c = (\<not> isspace c \<and> c \<noteq> CHR '':'' \<and> c \<noteq> CHR '','')"

definition match_file :: "string \<Rightarrow> nat option" where
  "match_file s =
     (let f = takeWhile is_file_char s in if f \<noteq> [] then Some (length f) else None)"

text \<open>\<open>\s*:\s*\<close> and \<open>\s*,\s*\<close>, for the separator character \<open>x\<close>\<close>

definition match_sep :: "char \<Rightarrow> string \<Rightarrow> nat option" where
  "match_sep x s =
     (let w = takeWhile isspace s in
      case dropWhile isspace s of
        [] \<Rightarrow> None
      | c # r \<Rightarrow> if c = x then Some (length w + 1 + length (takeWhile isspace r)) else None)"

text \<open>\<open>\s+\<close>\<close>

definition match_ws :: "string \<Rightarrow> nat option" where
  "match_ws s =
     (let w = takeWhile isspace s in if w \<noteq> [] then Some (length w) else None)"

definition FILE_LIST_TOKEN_TYPES :: "((string \<Rightarrow> nat option) \<times> token_type) list" where
  "FILE_LIST_TOKEN_TYPES =
     [(match_code, CODE),
      (match_file, FILE),
      (match_sep (CHR '':''), COLON),
      (match_sep (CHR '',''), COMMA),
      (match_ws, WS)]"

text \<open>
  The inner \<open>for\<close> loop with its \<open>break\<close>: the first pattern of the table that matches at
  the cursor, with the length of its match; \<open>None\<close> is the loop's \<open>else\<close> branch.
\<close>

fun first_match ::
  "((string \<Rightarrow> nat option) \<times> token_type) list \<Rightarrow> string \<Rightarrow> (token_type \<times> nat) option" where
  "first_match [] s = None"
| "first_match ((token_re, token_name) # ps) s =
     (case token_re s of
        Some n \<Rightarrow> Some (token_name, n)
      | None \<Rightarrow> first_match ps s)"

lemma match_code_pos: "match_code s = Some n \<Longrightarrow> 0 < n"
  by (auto simp: match_code_def Let_def split: if_splits)

lemma match_file_pos: "match_file s = Some n \<Longrightarrow> 0 < n"
  by (auto simp: match_file_def Let_def split: if_splits)

lemma match_sep_pos: "match_sep x s = Some n \<Longrightarrow> 0 < n"
  by (auto simp: match_sep_def Let_def split: list.splits if_splits)

lemma match_ws_pos: "match_ws s = Some n \<Longrightarrow> 0 < n"
  by (auto simp: match_ws_def Let_def split: if_splits)

lemma first_match_pos:
  "first_match FILE_LIST_TOKEN_TYPES s = Some (name, n) \<Longrightarrow> 0 < n"
  by (auto simp: FILE_LIST_TOKEN_TYPES_def
      dest: match_code_pos match_file_pos match_sep_pos match_ws_pos
      split: option.splits)

text \<open>
  The \<open>while\<close> loop of \<open>_tokenize_files_to_codes_mapping\<close>, from the cursor \<open>i\<close> on: the
  matches it finds, each as the token name, \<open>i\<close> and \<open>match.end()\<close>, in the order found.
  It fails with the \<open>AssertionError\<close> of the \<open>else\<close> branch when no pattern matches.
\<close>

function tokenize_loop :: "string \<Rightarrow> nat \<Rightarrow> error + (token_type \<times> nat \<times> nat) list" where
  "tokenize_loop value i =
     (if i < length value then
        (case first_match FILE_LIST_TOKEN_TYPES (drop i value) of
           None \<Rightarrow> Inl AssertionError
         | Some (token_name, n) \<Rightarrow>
             (case tokenize_loop value (i + n) of
                Inl e \<Rightarrow> Inl e
              | Inr ms \<Rightarrow> Inr ((token_name, i, i + n) # ms)))
      else Inr [])"
  by pat_completeness auto
termination
  by (relation "measure (\<lambda>(value, i). length value - i)")
    (auto dest: first_match_pos)

declare tokenize_loop.simps [simp del]

text \<open>\<open>_Token(token_name, match.group().strip())\<close> for the match from \<open>a\<close> to \<open>b\<close>.\<close>

definition match_token :: "string \<Rightarrow> token_type \<times> nat \<times> nat \<Rightarrow> token" where
  "match_token value m =
     (case m of (token_name, a, b) \<Rightarrow> Token token_name (strip (take (b - a) (drop a value))))"

definition tokenize_files_to_codes_mapping :: "string \<Rightarrow> error + token list" where
  "tokenize_files_to_codes_mapping value =
     (case tokenize_loop value 0 of
        Inl e \<Rightarrow> Inl e
      | Inr ms \<Rightarrow> Inr (map (match_token value) ms @ [Token EOF []]))"

section \<open>Lines and indentation\<close>

text \<open>
  \<open>str.splitlines(keepends)\<close>: the line boundaries below code point 256 are line feed,
  vertical tab, form feed, carriage return (one boundary together with a line feed right
  after it), the separators 28, 29 and 30, and the next-line character 133. A last line
  with no boundary after it is a line unless it is empty.
\<close>

definition is_linebreak :: "char \<Rightarrow> bool" where
  "is_linebreak c = (let n = (of_char c :: nat) in
     (10 \<le> n \<and> n \<le> 13) \<or> (28 \<le> n \<and> n \<le> 30) \<or> n = 133)"

definition eol :: "bool \<Rightarrow> string \<Rightarrow> string" where
  "eol keepends e = (if keepends then e else [])"

fun splitlines_from :: "bool \<Rightarrow> string \<Rightarrow> string \<Rightarrow> string list" where
  "splitlines_from keepends line [] = (if line = [] then [] else [line])"
| "splitlines_from keepends line [c] =
     (if is_linebreak c then [line @ eol keepends [c]] else [line @ [c]])"
| "splitlines_from keepends line (c # d # cs) =
     (if c = CHR 0x0D \<and> d = CHR 0x0A then
        (line @ eol keepends [c, d]) # splitlines_from keepends [] cs
      else if is_linebreak c then
        (line @ eol keepends [c]) # splitlines_from keepends [] (d # cs)
      else splitlines_from keepends (line @ [c]) (d # cs))"

definition splitlines :: "bool \<Rightarrow> string \<Rightarrow> string list" where
  "splitlines keepends s = splitlines_from keepends [] s"

text \<open>
  \<open>textwrap.indent(text, prefix)\<close> of the standard library: the prefix goes before
  every line that does not consist of whitespace only; line endings are kept.
\<close>

definition textwrap_indent :: "string \<Rightarrow> string \<Rightarrow> string" where
  "textwrap_indent text pfx =
     concat (map (\<lambda>line. if strip line \<noteq> [] then pfx @ line else line)
       (splitlines True text))"

section \<open>The parser of files-to-codes mappings\<close>

text \<open>
  The class \<open>State\<close> of \<open>parse_files_to_codes_mapping\<close>, together with the result list
  \<open>ret\<close> that \<open>_reset\<close> appends to. The tuples appended to \<open>ret\<close> hold the list object
  \<open>State.codes\<close>; \<open>_reset\<close> then binds \<open>State.codes\<close> to a new list, so no later
  \<open>append\<close> reaches a list that is already in \<open>ret\<close>, and lists are values here.
\<close>

record state =
  seen_sep :: bool
  seen_colon :: bool
  filenames :: "string list"
  codes :: "string list"
  ret :: "(string \<times> string list) list"

definition init_state :: state where
  "init_state =
     \<lparr>seen_sep = True, seen_colon = False, filenames = [], codes = [], ret = []\<rparr>"

definition reset :: "state \<Rightarrow> state" where
  "reset st =
     \<lparr>seen_sep = True, seen_colon = False, filenames = [], codes = [],
      ret = (if codes st \<noteq> [] then
               ret st @ map (\<lambda>filename. (filename, codes st)) (filenames st)
             else ret st)\<rparr>"

definition unexpected_token_header :: string where
  "unexpected_token_header =
     ''Expected `per-file-ignores` to be a mapping from file exclude '' @
     ''patterns to ignore codes.'' @ [CHR 0x0A, CHR 0x0A] @
     ''Configured `per-file-ignores` setting:'' @ [CHR 0x0A, CHR 0x0A]"

definition unexpected_token :: "string \<Rightarrow> error" where
  "unexpected_token value =
     ExecutionError (unexpected_token_header @ textwrap_indent (strip value) ''    '')"

text \<open>One round of the \<open>for token in ...\<close> loop.\<close>

definition parse_token :: "string \<Rightarrow> state \<Rightarrow> token \<Rightarrow> error + state" where
  "parse_token value st token =
     (if tp token = COMMA \<or> tp token = WS then Inr (st\<lparr>seen_sep := True\<rparr>)
      else if \<not> seen_colon st then
        (if tp token = COLON then Inr (st\<lparr>seen_colon := True, seen_sep := True\<rparr>)
         else if seen_sep st \<and> tp token = FILE then
           Inr (st\<lparr>filenames := filenames st @ [src token], seen_sep := False\<rparr>)
         else Inl (unexpected_token value))
      else
        (if tp token = EOF then Inr (reset st)
         else if seen_sep st \<and> tp token = CODE then
           Inr (st\<lparr>codes := codes st @ [src token], seen_sep := False\<rparr>)
         else if seen_sep st \<and> tp token = FILE then
           Inr ((reset st)\<lparr>filenames := filenames (reset st) @ [src token],
                            seen_sep := False\<rparr>)
         else Inl (unexpected_token value)))"

fun parse_tokens :: "string \<Rightarrow> state \<Rightarrow> token list \<Rightarrow> error + state" where
  "parse_tokens value st [] = Inr st"
| "parse_tokens value st (token # tokens) =
     (case parse_token value st token of
        Inl e \<Rightarrow> Inl e
      | Inr st' \<Rightarrow> parse_tokens value st' tokens)"

text \<open>
  \<open>parse_files_to_codes_mapping\<close> on a \<open>str\<close>. The tokenizer returns its whole list
  before the loop over the tokens starts, so its failure comes first.
\<close>

definition parse_files_to_codes_mapping ::
  "string \<Rightarrow> error + (string \<times> string list) list" where
  "parse_files_to_codes_mapping value =
     (if strip value = [] then Inr []
      else
        (case tokenize_files_to_codes_mapping value of
           Inl e \<Rightarrow> Inl e
         | Inr tokens \<Rightarrow>
             (case parse_tokens value init_state tokens of
                Inl e \<Rightarrow> Inl e
              | Inr st \<Rightarrow> Inr (ret st))))"

text \<open>On a sequence of strings: \<open>"\n".join(value_)\<close> is parsed.\<close>

fun join_lines :: "string list \<Rightarrow> string" where
  "join_lines [] = []"
| "join_lines [x] = x"
| "join_lines (x # y # ys) = x @ [CHR 0x0A] @ join_lines (y # ys)"

definition parse_files_to_codes_mapping_seq ::
  "string list \<Rightarrow> error + (string \<times> string list) list" where
  "parse_files_to_codes_mapping_seq values = parse_files_to_codes_mapping (join_lines values)"

section \<open>The parser of unified diffs\<close>

text \<open>
  \<open>DIFF_HUNK_REGEXP\<close> is \<open>^@@ -\d+(?:,\d+)? \+(\d+)(?:,(\d+))? @@.*$\<close>. Its match is
  modelled piece by piece on the rest of the line; the result is what
  \<open>hunk_match.groups()\<close> returns, the second group being \<open>None\<close> when the pattern's
  optional part took no part in the match. As for the token patterns, the greedy match is
  the only one: after the longest run of digits comes a character that is no digit, and
  the pattern goes on with a literal comma or space.
\<close>

fun literal :: "string \<Rightarrow> string \<Rightarrow> string option" where
  "literal [] s = Some s"
| "literal (p # ps) [] = None"
| "literal (p # ps) (c # cs) = (if p = c then literal ps cs else None)"

text \<open>\<open>\d+\<close>: the digits matched and the rest.\<close>

definition digits :: "string \<Rightarrow> (string \<times> string) option" where
  "digits s =
     (let d = takeWhile is_digit s in
      if d = [] then None else Some (d, dropWhile is_digit s))"

text \<open>\<open>(?:,(\d+))?\<close>: the group, if the optional part matches, and the rest.\<close>

definition opt_count :: "string \<Rightarrow> string option \<times> string" where
  "opt_count s =
     (case s of
        [] \<Rightarrow> (None, s)
      | c # r \<Rightarrow>
          if c = CHR '','' then
            (case digits r of None \<Rightarrow> (None, s) | Some (d, r') \<Rightarrow> (Some d, r'))
          else (None, s))"

text \<open>
  \<open>.*$\<close>: the dot matches no line feed, and \<open>$\<close> matches at the end of the string or
  before a line feed that ends it.
\<close>

definition rest_of_line :: "string \<Rightarrow> bool" where
  "rest_of_line r =
     (CHR 0x0A \<notin> set r \<or> (r \<noteq> [] \<and> last r = CHR 0x0A \<and> CHR 0x0A \<notin> set (butlast r)))"

definition DIFF_HUNK_REGEXP :: "string \<Rightarrow> (string \<times> string option) option" where
  "DIFF_HUNK_REGEXP line =
     (case literal ''@@ -'' line of None \<Rightarrow> None | Some r1 \<Rightarrow>
      case digits r1 of None \<Rightarrow> None | Some (old_row, r2) \<Rightarrow>
      case opt_count r2 of (old_rows, r3) \<Rightarrow>
      case literal '' +'' r3 of None \<Rightarrow> None | Some r4 \<Rightarrow>
      case digits r4 of None \<Rightarrow> None | Some (group1, r5) \<Rightarrow>
      case opt_count r5 of (group2, r6) \<Rightarrow>
      case literal '' @@'' r6 of None \<Rightarrow> None | Some r7 \<Rightarrow>
      if rest_of_line r7 then Some (group1, group2) else None)"

text \<open>
  \<open>int(group)\<close> on a string of decimal digits. Python's integers are unbounded; the
  interpreter's limit on the length of a string that \<open>int\<close> converts is not modelled.
\<close>

definition int_of_digits :: "string \<Rightarrow> nat" where
  "int_of_digits s = foldl (\<lambda>n c. 10 * n + (of_char c - 48)) 0 s"

text \<open>\<open>1 if not group else int(group)\<close>, for a group of \<open>hunk_match.groups()\<close>.\<close>

definition group_value :: "string option \<Rightarrow> nat" where
  "group_value grp =
     (case grp of
        None \<Rightarrow> 1
      | Some g \<Rightarrow> if g = [] then 1 else int_of_digits g)"

text \<open>
  The path of a \<open>+++\<close> line: \<open>line[4:].split("\t", 1)[0]\<close>, without a leading \<open>b/\<close>.
\<close>

definition diff_path :: "string \<Rightarrow> string" where
  "diff_path line =
     (let current_path = takeWhile (\<lambda>c. c \<noteq> CHR 0x09) (drop 4 line) in
      if take 2 current_path = ''b/'' then drop 2 current_path else current_path)"

text \<open>
  The local variables of \<open>parse_unified_diff\<close>. \<open>parsed_paths\<close> is a
  \<open>defaultdict(set)\<close>: reading a key that is missing stores the empty set under it.
\<close>

record diff_state =
  number_of_rows :: "nat option"
  current_path :: "string option"
  parsed_paths :: "string \<rightharpoonup> nat set"

definition init_diff_state :: diff_state where
  "init_diff_state =
     \<lparr>number_of_rows = None, current_path = None, parsed_paths = Map.empty\<rparr>"

text \<open>\<open>if number_of_rows:\<close> holds for an integer other than zero.\<close>

definition in_hunk :: "diff_state \<Rightarrow> bool" where
  "in_hunk st = (case number_of_rows st of None \<Rightarrow> False | Some n \<Rightarrow> n \<noteq> 0)"

text \<open>\<open>not line or line[0] != "-"\<close>\<close>

definition counts_as_row :: "string \<Rightarrow> bool" where
  "counts_as_row line = (case line of [] \<Rightarrow> True | c # _ \<Rightarrow> c \<noteq> CHR ''-'')"

text \<open>\<open>parsed_paths[current_path].update(range(row, row + number_of_rows))\<close>\<close>

definition add_rows :: "(string \<rightharpoonup> nat set) \<Rightarrow> string \<Rightarrow> nat \<Rightarrow> nat \<Rightarrow> (string \<rightharpoonup> nat set)" where
  "add_rows m path row n =
     m(path \<mapsto> (case m path of None \<Rightarrow> {} | Some s \<Rightarrow> s) \<union> {row ..< row + n})"

text \<open>
  One round of the loop over the lines. The assertion is checked after both groups are
  converted and before the dictionary is touched (assertions are on: the interpreter
  does not run with \<open>-O\<close>).
\<close>

definition diff_line :: "diff_state \<Rightarrow> string \<Rightarrow> error + diff_state" where
  "diff_line st line =
     (if in_hunk st then
        Inr (if counts_as_row line
             then st\<lparr>number_of_rows := map_option (\<lambda>n. n - 1) (number_of_rows st)\<rparr>
             else st)
      else if take 3 line = ''+++'' then
        Inr (st\<lparr>current_path := Some (diff_path line)\<rparr>)
      else
        (case DIFF_HUNK_REGEXP line of
           None \<Rightarrow> Inr st
         | Some (group1, group2) \<Rightarrow>
             (let row = group_value (Some group1); n = group_value group2 in
              case current_path st of
                None \<Rightarrow> Inl AssertionError
              | Some path \<Rightarrow>
                  Inr (st\<lparr>number_of_rows := Some n,
                          parsed_paths := add_rows (parsed_paths st) path row n\<rparr>))))"

fun diff_lines :: "diff_state \<Rightarrow> string list \<Rightarrow> error + diff_state" where
  "diff_lines st [] = Inr st"
| "diff_lines st (line # lines) =
     (case diff_line st line of
        Inl e \<Rightarrow> Inl e
      | Inr st' \<Rightarrow> diff_lines st' lines)"

text \<open>\<open>parse_unified_diff\<close> on a \<open>str\<close> (with \<open>None\<close> it reads the diff from stdin).\<close>

definition parse_unified_diff :: "string \<Rightarrow> error + (string \<rightharpoonup> nat set)" where
  "parse_unified_diff diff =
     (case diff_lines init_diff_state (splitlines False diff) of
        Inl e \<Rightarrow> Inl e
      | Inr st \<Rightarrow> Inr (parsed_paths st))"

section \<open>Notions of the specification\<close>

subsection \<open>Coverage of the input by the tokenizer\<close>

text \<open>
  The matches of the loop cover the input from \<open>i\<close> to \<open>j\<close> with no gap: each starts
  where the one before it ends, and none is empty.
\<close>

fun covers :: "nat \<Rightarrow> (token_type \<times> nat \<times> nat) list \<Rightarrow> nat \<Rightarrow> bool" where
  "covers i [] j = (i = j)"
| "covers i ((token_name, a, b) # ms) j = (a = i \<and> a < b \<and> covers b ms j)"

text \<open>
  The longest prefix of the rest of the input that has the form \<open>[A-Z]*[0-9]*\<close>: the
  run that the pattern for codes tries, when the rest starts with an upper-case letter.
\<close>

definition code_run :: "string \<Rightarrow> string" where
  "code_run s = takeWhile is_upper s @ takeWhile is_digit (dropWhile is_upper s)"

subsection \<open>Well-formed mappings\<close>

text \<open>
  The syntax of a mapping, on the tokens of the input, in the specification's words: one
  or more groups \<open>filename[,filename...] : CODE[,CODE...]\<close>, the filenames being the
  \<open>FILE\<close> tokens and the codes the \<open>CODE\<close> tokens; separators (comma or whitespace
  tokens), at least one, stand between two filenames, between two codes and between two
  groups, and any number of them may stand at the start, around a colon and before the
  final \<open>EOF\<close> token. \<open>well_formed tokens gs\<close>: the tokens are such a mapping, whose
  groups declare the filenames and codes \<open>gs\<close>, in their order.
\<close>

definition is_sep :: "token \<Rightarrow> bool" where
  "is_sep t = (tp t = COMMA \<or> tp t = WS)"

inductive more_names :: "token_type \<Rightarrow> string list \<Rightarrow> token list \<Rightarrow> bool" for k where
  none: "more_names k [] []"
| more: "ss \<noteq> [] \<Longrightarrow> list_all is_sep ss \<Longrightarrow> more_names k xs ts \<Longrightarrow>
         more_names k (x # xs) (ss @ Token k x # ts)"

type_synonym mapping_group = "string list \<times> string list"

inductive group_tokens :: "mapping_group \<Rightarrow> token list \<Rightarrow> bool" where
  "more_names FILE fs ft \<Longrightarrow> list_all is_sep s1 \<Longrightarrow> list_all is_sep s2 \<Longrightarrow>
   more_names CODE cs ct \<Longrightarrow>
   group_tokens (f # fs, c # cs)
     (Token FILE f # ft @ s1 @ Token COLON x # s2 @ Token CODE c # ct)"

inductive groups_tokens :: "mapping_group list \<Rightarrow> token list \<Rightarrow> bool" where
  final: "group_tokens g gt \<Longrightarrow> list_all is_sep s \<Longrightarrow> groups_tokens [g] (gt @ s @ [Token EOF x])"
| step: "group_tokens g gt \<Longrightarrow> s \<noteq> [] \<Longrightarrow> list_all is_sep s \<Longrightarrow> groups_tokens gs ts \<Longrightarrow>
         groups_tokens (g # gs) (gt @ s @ ts)"

definition well_formed :: "token list \<Rightarrow> mapping_group list \<Rightarrow> bool" where
  "well_formed tokens gs =
     (\<exists>s ts. tokens = s @ ts \<and> list_all is_sep s \<and> groups_tokens gs ts)"

text \<open>
  One pair per declared filename, with the codes of its group, in the order of
  declaration.
\<close>

definition pairs :: "mapping_group list \<Rightarrow> (string \<times> string list) list" where
  "pairs gs = concat (map (\<lambda>(fs, cs). map (\<lambda>filename. (filename, cs)) fs) gs)"

definition example_mapping :: string where
  "example_mapping =
     '' a.py , b.py :'' @ [CHR 0x0A] @ ''  E501 E502'' @ [CHR 0x0A] @ ''c.py:W1''"

definition example_tokens :: "token list" where
  "example_tokens =
     [Token WS [], Token FILE ''a.py'', Token COMMA '','', Token FILE ''b.py'',
      Token COLON '':'', Token CODE ''E501'', Token WS [], Token CODE ''E502'', Token WS [],
      Token FILE ''c.py'', Token COLON '':'', Token CODE ''W1'', Token EOF []]"

subsection \<open>The hunks of a diff\<close>

text \<open>
  The hunks of a diff, in the specification's words (its section on the diff range
  parser): inside a hunk body (the countdown is set and positive) a line that is empty
  or does not start with \<open>-\<close> takes one off the countdown, and nothing else is read;
  else a \<open>+++\<close> line sets the path; else a line that matches the hunk-header pattern is
  a hunk of the path set by then (if any), with its new-start and its new-count, 1 when
  the count group is missing, and sets the countdown to the new-count.
\<close>

type_synonym hunk = "string option \<times> nat \<times> nat"

fun diff_hunks :: "nat option \<Rightarrow> string option \<Rightarrow> string list \<Rightarrow> hunk list" where
  "diff_hunks rows_remaining path [] = []"
| "diff_hunks rows_remaining path (line # lines) =
     (case rows_remaining of
        Some (Suc k) \<Rightarrow>
          diff_hunks (if line = [] \<or> hd line \<noteq> CHR ''-'' then Some k else Some (Suc k)) path lines
      | _ \<Rightarrow>
          if take 3 line = ''+++'' then diff_hunks rows_remaining (Some (diff_path line)) lines
          else
            (case DIFF_HUNK_REGEXP line of
               None \<Rightarrow> diff_hunks rows_remaining path lines
             | Some (new_start, new_count) \<Rightarrow>
                 (let start = int_of_digits new_start;
                      count = (case new_count of None \<Rightarrow> 1 | Some c \<Rightarrow> int_of_digits c)
                  in (path, start, count) # diff_hunks (Some count) path lines)))"

text \<open>
  The union, over the hunks of a path, of the intervals from new-start (included) to
  new-start + new-count (excluded); and the mapping from every path that has a hunk to
  this set.
\<close>

definition hunk_rows :: "hunk list \<Rightarrow> string \<Rightarrow> nat set" where
  "hunk_rows hs path =
     (\<Union>(p, start, count) \<in> set hs. if p = Some path then {start ..< start + count} else {})"

definition hunk_map :: "hunk list \<Rightarrow> (string \<rightharpoonup> nat set)" where
  "hunk_map hs = (\<lambda>path. if Some path \<in> fst ` set hs then Some (hunk_rows hs path) else None)"

definition example_diff :: string where
  "example_diff =
     ''+++ b/foo.py'' @ [CHR 0x09] @ ''100644'' @ [CHR 0x0A] @
     ''@@ -1,3 +10,2 @@'' @ [CHR 0x0A] @
     '' a'' @ [CHR 0x0A] @
     ''-b'' @ [CHR 0x0A] @
     ''+c'' @ [CHR 0x0A] @
     ''@@ -20 +21 @@ def f():'' @ [CHR 0x0A] @
     ''+d'' @ [CHR 0x0A] @
     ''+++ bar.py'' @ [CHR 0x0A] @
     ''@@ -0,0 +1 @@'' @ [CHR 0x0A] @
     ''+e'' @ [CHR 0x0A]"

subsection \<open>Auxiliary notions of the proofs\<close>

text \<open>The states in which the first filename of a group may come.\<close>

definition group_start :: "state \<Rightarrow> bool" where
  "group_start st = (seen_sep st \<and> (seen_colon st \<or> (filenames st = [] \<and> codes st = [])))"

text \<open>The hunks \<open>hs\<close> added to a mapping that is already there.\<close>

definition merge_hunks :: "(string \<rightharpoonup> nat set) \<Rightarrow> hunk list \<Rightarrow> (string \<rightharpoonup> nat set)" where
  "merge_hunks m hs =
     (\<lambda>path. if Some path \<in> fst ` set hs
              then Some ((case m path of None \<Rightarrow> {} | Some s \<Rightarrow> s) \<union> hunk_rows hs path)
              else m path)"

section \<open>Unfolding the definitions on concrete inputs\<close>

lemmas char_defs = isspace_def is_upper_def is_digit_def is_file_char_def is_linebreak_def

lemmas tokenizer_defs =
  strip_def lookahead_sep_def match_code_def match_file_def match_sep_def match_ws_def
  FILE_LIST_TOKEN_TYPES_def tokenize_loop.simps match_token_def
  tokenize_files_to_codes_mapping_def

lemmas parser_defs =
  splitlines_def eol_def textwrap_indent_def init_state_def reset_def
  unexpected_token_def parse_token_def parse_files_to_codes_mapping_def

lemmas diff_defs =
  parse_unified_diff_def splitlines_def eol_def init_diff_state_def diff_line_def in_hunk_def
  counts_as_row_def DIFF_HUNK_REGEXP_def digits_def opt_count_def rest_of_line_def
  group_value_def int_of_digits_def diff_path_def add_rows_def atLeastLessThan_nat_numeral

section \<open>The tokenizer always returns\<close>

lemma upper_file_char: "is_upper c \<Longrightarrow> is_file_char c"
  by (auto simp: char_defs Let_def)

lemma digit_file_char: "is_digit c \<Longrightarrow> is_file_char c"
  by (auto simp: char_defs Let_def)

lemma match_code_le: "match_code s = Some n \<Longrightarrow> n \<le> length s"
proof -
  have "length (takeWhile is_upper s) + length (takeWhile is_digit (dropWhile is_upper s))
      \<le> length (takeWhile is_upper s) + length (dropWhile is_upper s)"
    by (simp add: length_takeWhile_le)
  also have "\<dots> = length s"
    by (metis length_append takeWhile_dropWhile_id)
  finally show "match_code s = Some n \<Longrightarrow> n \<le> length s"
    by (auto simp: match_code_def Let_def split: if_splits)
qed

lemma match_file_le: "match_file s = Some n \<Longrightarrow> n \<le> length s"
  by (auto simp: match_file_def Let_def length_takeWhile_le split: if_splits)

lemma match_ws_le: "match_ws s = Some n \<Longrightarrow> n \<le> length s"
  by (auto simp: match_ws_def Let_def length_takeWhile_le split: if_splits)

lemma match_sep_le: "match_sep x s = Some n \<Longrightarrow> n \<le> length s"
proof -
  assume a: "match_sep x s = Some n"
  then obtain r where r: "dropWhile isspace s = x # r"
    and n: "n = length (takeWhile isspace s) + 1 + length (takeWhile isspace r)"
    by (auto simp: match_sep_def Let_def split: list.splits if_splits)
  have "length s = length (takeWhile isspace s) + length (dropWhile isspace s)"
    by (metis length_append takeWhile_dropWhile_id)
  with r have "length s = length (takeWhile isspace s) + 1 + length r" by simp
  moreover have "length (takeWhile isspace r) \<le> length r" by (rule length_takeWhile_le)
  ultimately show ?thesis using n by simp
qed

lemma first_match_le:
  "first_match FILE_LIST_TOKEN_TYPES s = Some (name, n) \<Longrightarrow> n \<le> length s"
  by (auto simp: FILE_LIST_TOKEN_TYPES_def
      dest: match_code_le match_file_le match_sep_le match_ws_le
      split: option.splits)

lemma first_match_exhaustive:
  assumes "s \<noteq> []"
  shows "first_match FILE_LIST_TOKEN_TYPES s \<noteq> None"
proof -
  from assms obtain c cs where s: "s = c # cs" by (cases s) auto
  show ?thesis
  proof (cases "is_file_char c")
    case True
    then have "match_file s \<noteq> None" by (simp add: s match_file_def)
    then show ?thesis
      by (auto simp: FILE_LIST_TOKEN_TYPES_def split: option.splits)
  next
    case False
    show ?thesis
    proof (cases "isspace c")
      case True
      then have "match_ws s \<noteq> None" by (simp add: s match_ws_def)
      then show ?thesis
        by (auto simp: FILE_LIST_TOKEN_TYPES_def split: option.splits)
    next
      case nsp: False
      with False have "c = CHR '':'' \<or> c = CHR '',''" by (auto simp: is_file_char_def)
      with nsp have "match_sep (CHR '':'') s \<noteq> None \<or> match_sep (CHR '','') s \<noteq> None"
        by (auto simp: s match_sep_def)
      then show ?thesis
        by (auto simp: FILE_LIST_TOKEN_TYPES_def split: option.splits)
    qed
  qed
qed

lemma tokenize_loop_total:
  "i \<le> length value \<Longrightarrow> \<exists>ms. tokenize_loop value i = Inr ms \<and> covers i ms (length value)"
proof (induction "value" i rule: tokenize_loop.induct)
  case (1 "value" i)
  show ?case
  proof (cases "i < length value")
    case False
    with "1.prems" show ?thesis by (simp add: tokenize_loop.simps)
  next
    case True
    then have "drop i value \<noteq> []" by simp
    then obtain name n where fm: "first_match FILE_LIST_TOKEN_TYPES (drop i value) = Some (name, n)"
      using first_match_exhaustive by fastforce
    from first_match_pos [OF fm] have pos: "0 < n" .
    from first_match_le [OF fm] True have le: "i + n \<le> length value" by simp
    from "1.IH" [OF True fm refl le] obtain ms where
      ms: "tokenize_loop value (i + n) = Inr ms" "covers (i + n) ms (length value)" by blast
    have "tokenize_loop value i = Inr ((name, i, i + n) # ms)"
      using True fm ms(1) by (subst tokenize_loop.simps) simp
    with ms(2) pos show ?thesis by simp
  qed
qed

lemma covers_concat:
  "covers i ms j \<Longrightarrow> j \<le> length value \<Longrightarrow>
   concat (map (\<lambda>(token_name, a, b). take (b - a) (drop a value)) ms) = take (j - i) (drop i value)"
proof (induction ms arbitrary: i)
  case Nil
  then show ?case by simp
next
  case (Cons m ms)
  obtain name a b where m: "m = (name, a, b)" by (cases m)
  with Cons.prems have ab: "a = i" "i < b" "covers b ms j" by auto
  from Cons.IH [OF ab(3) Cons.prems(2)]
  have IH: "concat (map (\<lambda>(token_name, a, b). take (b - a) (drop a value)) ms)
      = take (j - b) (drop b value)" .
  have bj: "b \<le> j" using ab(3)
  proof (induction ms arbitrary: b)
    case Nil then show ?case by simp
  next
    case (Cons m' ms') then show ?case by (cases m') force
  qed
  have "take (j - i) (drop i value) = take (b - i) (drop i value) @ take (j - b) (drop b value)"
  proof -
    have "take (j - i) (drop i value) = take ((b - i) + (j - b)) (drop i value)"
      using ab(2) bj by simp
    also have "\<dots> = take (b - i) (drop i value) @ take (j - b) (drop (b - i) (drop i value))"
      by (rule take_add)
    also have "drop (b - i) (drop i value) = drop b value"
      using ab(2) by simp
    finally show ?thesis .
  qed
  with IH m ab(1) show ?case by simp
qed

lemma match_token_tp: "tp (match_token value (name, a, b)) = name"
  by (simp add: match_token_def)

lemma first_match_not_EOF:
  "first_match FILE_LIST_TOKEN_TYPES s = Some (name, n) \<Longrightarrow> name \<noteq> EOF"
  by (auto simp: FILE_LIST_TOKEN_TYPES_def split: option.splits)

lemma tokenize_loop_not_EOF:
  "tokenize_loop value i = Inr ms \<Longrightarrow> filter (\<lambda>m. fst m = EOF) ms = []"
proof (induction "value" i arbitrary: ms rule: tokenize_loop.induct)
  case (1 "value" i)
  show ?case
  proof (cases "i < length value")
    case False
    with "1.prems" show ?thesis by (simp add: tokenize_loop.simps)
  next
    case True
    with "1.prems" obtain name n ms' where
      fm: "first_match FILE_LIST_TOKEN_TYPES (drop i value) = Some (name, n)"
      and ms': "tokenize_loop value (i + n) = Inr ms'" and ms: "ms = (name, i, i + n) # ms'"
      by (subst (asm) tokenize_loop.simps) (auto split: option.splits sum.splits)
    from "1.IH" [OF True fm refl ms'] first_match_not_EOF [OF fm] ms show ?thesis by simp
  qed
qed

text \<open>
  Claim C5. On every input, \<open>_tokenize_files_to_codes_mapping\<close> returns (the recursion of
  \<open>tokenize_loop\<close> is well-founded, and its result is never the \<open>AssertionError\<close> of the
  branch taken when no pattern matches); the matches cover the input from its first to
  its last character with no gap, so their texts in a row are the input; and the token
  list ends with the \<open>EOF\<close> token, which is the only token of that type in it.
\<close>

theorem tokenizer_total:
  "\<exists>ms. tokenize_loop value 0 = Inr ms
     \<and> covers 0 ms (length value)
     \<and> concat (map (\<lambda>(token_name, a, b). take (b - a) (drop a value)) ms) = value
     \<and> tokenize_files_to_codes_mapping value = Inr (map (match_token value) ms @ [Token EOF []])
     \<and> last (map (match_token value) ms @ [Token EOF []]) = Token EOF []
     \<and> filter (\<lambda>t. tp t = EOF) (map (match_token value) ms @ [Token EOF []]) = [Token EOF []]"
proof -
  from tokenize_loop_total [of 0 "value"] obtain ms where
    ms: "tokenize_loop value 0 = Inr ms" "covers 0 ms (length value)" by auto
  from covers_concat [OF ms(2), of "value"]
  have c: "concat (map (\<lambda>(token_name, a, b). take (b - a) (drop a value)) ms) = value" by simp
  have "filter (\<lambda>t. tp t = EOF) (map (match_token value) ms) = []"
    using tokenize_loop_not_EOF [OF ms(1)]
    by (auto simp: filter_empty_conv match_token_def split: prod.splits)
  with ms c show ?thesis
    by (auto simp: tokenize_files_to_codes_mapping_def)
qed

theorem tokenizer_total_witness:
  "tokenize_loop ''a.py: E5'' 0 = Inr [(FILE, 0, 4), (COLON, 4, 6), (CODE, 6, 8)]
   \<and> covers 0 [(FILE, 0, 4), (COLON, 4, 6), (CODE, 6, 8)] (length ''a.py: E5'')
   \<and> tokenize_files_to_codes_mapping ''a.py: E5'' =
       Inr [Token FILE ''a.py'', Token COLON '':'', Token CODE ''E5'', Token EOF []]"
proof -
  have "tokenize_loop ''a.py: E5'' 0 = Inr [(FILE, 0, 4), (COLON, 4, 6), (CODE, 6, 8)]"
    by (simp add: tokenizer_defs char_defs)
  with tokenizer_total [of "''a.py: E5''"] show ?thesis
    by (simp add: match_token_def strip_def char_defs)
qed

lemma tokenizer_no_error: "tokenize_files_to_codes_mapping value \<noteq> Inl e"
  using tokenize_loop_total [of 0 "value"]
  by (auto simp: tokenize_files_to_codes_mapping_def)

section \<open>Codes before files\<close>

lemma code_run_rest:
  "drop (length (code_run s)) s = dropWhile is_digit (dropWhile is_upper s)"
proof -
  have "s = code_run s @ dropWhile is_digit (dropWhile is_upper s)"
    by (simp add: code_run_def)
  then show ?thesis
    by (metis append_eq_conv_conj)
qed

lemma match_code_run:
  "match_code s =
     (if takeWhile is_upper s \<noteq> [] \<and> lookahead_sep (drop (length (code_run s)) s)
      then Some (length (code_run s)) else None)"
  by (simp add: match_code_def Let_def code_run_rest) (simp add: code_run_def)

lemma prefix_takeWhile:
  "prefix p s \<Longrightarrow> list_all P p \<Longrightarrow> prefix p (takeWhile P s)"
proof (induction p arbitrary: s)
  case Nil
  then show ?case by simp
next
  case (Cons c p)
  then obtain s' where "s = c # s'" "prefix p s'" by (cases s) auto
  with Cons show ?case by simp
qed

lemma code_run_file_chars: "list_all is_file_char (code_run s)"
  by (auto simp: code_run_def list_all_iff dest!: set_takeWhileD
      intro: upper_file_char digit_file_char)

lemma code_run_prefix: "prefix (code_run s) s"
proof -
  have "s = code_run s @ dropWhile is_digit (dropWhile is_upper s)"
    by (simp add: code_run_def)
  then show ?thesis by (metis prefixI)
qed

lemma lookahead_upper: "lookahead_sep (c # r) \<Longrightarrow> \<not> is_upper c"
  by (auto simp: lookahead_sep_def char_defs Let_def)

lemma lookahead_digit: "lookahead_sep (c # r) \<Longrightarrow> \<not> is_digit c"
  by (auto simp: lookahead_sep_def char_defs Let_def)

lemma upper_not_digit: "is_digit c \<Longrightarrow> \<not> is_upper c"
  by (auto simp: char_defs Let_def)

lemma takeWhile_all: "list_all P u \<Longrightarrow> takeWhile P (u @ r) = u @ takeWhile P r"
  by (induction u) auto

lemma dropWhile_all: "list_all P u \<Longrightarrow> dropWhile P (u @ r) = dropWhile P r"
  by (induction u) auto

lemma takeWhile_stop: "(r \<noteq> [] \<Longrightarrow> \<not> P (hd r)) \<Longrightarrow> takeWhile P r = []"
  by (cases r) auto

text \<open>A run that a separator follows is the longest run.\<close>

lemma code_run_greedy:
  assumes "list_all is_upper u" and "list_all is_digit d" and "lookahead_sep rest"
  shows "code_run (u @ d @ rest) = u @ d"
proof -
  have 1: "takeWhile is_upper (d @ rest) = []"
  proof (cases d)
    case Nil
    with assms(3) show ?thesis by (cases rest) (auto dest: lookahead_upper)
  next
    case (Cons c d')
    with assms(2) show ?thesis by (auto dest: upper_not_digit)
  qed
  have 2: "takeWhile is_digit rest = []"
    using assms(3) by (cases rest) (auto dest: lookahead_digit)
  have 3: "dropWhile is_upper (d @ rest) = d @ rest"
    using 1 by (metis append_Nil takeWhile_dropWhile_id)
  show ?thesis
    using assms(1,2) 1 2 3
    by (simp add: code_run_def takeWhile_all dropWhile_all)
qed

lemma tokenize_loop_first:
  assumes "i < length value"
    and "first_match FILE_LIST_TOKEN_TYPES (drop i value) = Some (name, n)"
  shows "\<exists>ms. tokenize_loop value i = Inr ((name, i, i + n) # ms)"
proof -
  from first_match_le [OF assms(2)] assms(1) have "i + n \<le> length value" by simp
  from tokenize_loop_total [OF this] obtain ms where "tokenize_loop value (i + n) = Inr ms"
    by blast
  with assms have "tokenize_loop value i = Inr ((name, i, i + n) # ms)"
    by (subst tokenize_loop.simps) simp
  then show ?thesis by blast
qed

lemma strip_no_space: "list_all (\<lambda>c. \<not> isspace c) x \<Longrightarrow> strip x = x"
proof -
  assume a: "list_all (\<lambda>c. \<not> isspace c) x"
  then have 1: "dropWhile isspace x = x"
    by (cases x) auto
  from a have "list_all (\<lambda>c. \<not> isspace c) (rev x)" by (simp add: list_all_iff)
  then have "dropWhile isspace (rev x) = rev x"
    by (cases "rev x") auto
  with 1 show ?thesis by (simp add: strip_def)
qed

lemma match_token_file_chars:
  assumes "drop i value = s" and "prefix x s" and "list_all is_file_char x"
  shows "match_token value (name, i, i + length x) = Token name x"
proof -
  from assms(1,2) have "take (length x) (drop i value) = x"
    by (auto simp: prefix_def)
  moreover from assms(3) have "strip x = x"
    by (intro strip_no_space) (auto simp: list_all_iff is_file_char_def)
  ultimately show ?thesis by (simp add: match_token_def)
qed

text \<open>
  Claim C6. The table is tried in its order, \<open>CODE\<close> before \<open>FILE\<close>. At a cursor where the
  rest \<open>s\<close> of the input starts with an upper-case letter, the first match is the \<open>CODE\<close>
  match of the longest run \<open>[A-Z]+[0-9]*\<close> if the end of the input, whitespace or a comma
  comes right after the run; otherwise it is the \<open>FILE\<close> match of the longest run of
  characters other than whitespace, colon and comma, of which the run of letters and
  digits is a prefix. A run \<open>[A-Z]+[0-9]*\<close> at the cursor, the longest or not, is what
  \<open>CODE\<close> matches exactly when a separator or the end follows it. The token that the
  loop emits at the cursor is accordingly \<open>CODE\<close> with the run as its text, or \<open>FILE\<close>.
\<close>

theorem code_before_file:
  assumes "takeWhile is_upper s \<noteq> []"
  shows "first_match FILE_LIST_TOKEN_TYPES s =
      (if lookahead_sep (drop (length (code_run s)) s)
       then Some (CODE, length (code_run s))
       else Some (FILE, length (takeWhile is_file_char s)))
    \<and> prefix (code_run s) (takeWhile is_file_char s)
    \<and> (\<forall>u d rest. s = u @ d @ rest \<and> u \<noteq> [] \<and> list_all is_upper u \<and> list_all is_digit d \<longrightarrow>
         (first_match FILE_LIST_TOKEN_TYPES s = Some (CODE, length (u @ d)) \<longleftrightarrow> lookahead_sep rest))
    \<and> (\<forall>value i. drop i value = s \<longrightarrow>
         (\<exists>m ms. tokenize_loop value i = Inr (m # ms)
            \<and> match_token value m =
                (if lookahead_sep (drop (length (code_run s)) s)
                 then Token CODE (code_run s)
                 else Token FILE (takeWhile is_file_char s))))"
proof (intro conjI allI impI)
  from assms obtain c cs where s: "s = c # cs" "is_upper c" by (cases s) (auto split: if_splits)
  then have f: "takeWhile is_file_char s \<noteq> []" by (simp add: upper_file_char)
  show fm: "first_match FILE_LIST_TOKEN_TYPES s =
      (if lookahead_sep (drop (length (code_run s)) s)
       then Some (CODE, length (code_run s))
       else Some (FILE, length (takeWhile is_file_char s)))"
    using assms f by (simp add: FILE_LIST_TOKEN_TYPES_def match_code_run match_file_def)
  show "prefix (code_run s) (takeWhile is_file_char s)"
    by (rule prefix_takeWhile [OF code_run_prefix code_run_file_chars])
  fix u d rest
  assume a: "s = u @ d @ rest \<and> u \<noteq> [] \<and> list_all is_upper u \<and> list_all is_digit d"
  show "first_match FILE_LIST_TOKEN_TYPES s = Some (CODE, length (u @ d)) \<longleftrightarrow> lookahead_sep rest"
  proof
    assume la: "lookahead_sep rest"
    with a have cr: "code_run s = u @ d" by (simp add: code_run_greedy)
    with a la have "lookahead_sep (drop (length (code_run s)) s)" by simp
    with fm cr show "first_match FILE_LIST_TOKEN_TYPES s = Some (CODE, length (u @ d))" by simp
  next
    assume "first_match FILE_LIST_TOKEN_TYPES s = Some (CODE, length (u @ d))"
    with fm have la: "lookahead_sep (drop (length (code_run s)) s)"
      and len: "length (code_run s) = length (u @ d)"
      by (auto split: if_splits)
    from a have "drop (length (u @ d)) s = rest" by simp
    with la len show "lookahead_sep rest" by simp
  qed
next
  fix "value" :: string and i
  assume d: "drop i value = s"
  from assms obtain c cs where s: "s = c # cs" "is_upper c" by (cases s) (auto split: if_splits)
  then have f: "takeWhile is_file_char s \<noteq> []" by (simp add: upper_file_char)
  have fm: "first_match FILE_LIST_TOKEN_TYPES s =
      (if lookahead_sep (drop (length (code_run s)) s)
       then Some (CODE, length (code_run s))
       else Some (FILE, length (takeWhile is_file_char s)))"
    using assms f by (simp add: FILE_LIST_TOKEN_TYPES_def match_code_run match_file_def)
  from d s have i: "i < length value" by (cases "i < length value") auto
  have tw: "prefix (takeWhile is_file_char s) s"
    by (metis prefixI takeWhile_dropWhile_id)
  have twa: "list_all is_file_char (takeWhile is_file_char s)"
    by (auto simp: list_all_iff dest: set_takeWhileD)
  show "\<exists>m ms. tokenize_loop value i = Inr (m # ms)
            \<and> match_token value m =
                (if lookahead_sep (drop (length (code_run s)) s)
                 then Token CODE (code_run s)
                 else Token FILE (takeWhile is_file_char s))"
  proof (cases "lookahead_sep (drop (length (code_run s)) s)")
    case True
    with fm d have "first_match FILE_LIST_TOKEN_TYPES (drop i value) = Some (CODE, length (code_run s))"
      by simp
    from tokenize_loop_first [OF i this] True
      match_token_file_chars [OF d code_run_prefix code_run_file_chars, of CODE]
    show ?thesis by auto
  next
    case False
    with fm d have "first_match FILE_LIST_TOKEN_TYPES (drop i value) =
      Some (FILE, length (takeWhile is_file_char s))"
      by simp
    from tokenize_loop_first [OF i this] False
      match_token_file_chars [OF d tw twa, of FILE]
    show ?thesis by auto
  qed
qed

theorem code_before_file_witness:
  "takeWhile is_upper ''E501,W'' \<noteq> []
   \<and> lookahead_sep '',W''
   \<and> first_match FILE_LIST_TOKEN_TYPES ''E501,W'' = Some (CODE, 4)
   \<and> \<not> lookahead_sep '': x''
   \<and> first_match FILE_LIST_TOKEN_TYPES ''E501: x'' = Some (FILE, 4)
   \<and> \<not> lookahead_sep ''.py x''
   \<and> first_match FILE_LIST_TOKEN_TYPES ''E501.py x'' = Some (FILE, 7)
   \<and> (\<exists>m ms. tokenize_loop ''x.py:E501,W'' 5 = Inr (m # ms)
        \<and> match_token ''x.py:E501,W'' m = Token CODE ''E501'')
   \<and> tokenize_files_to_codes_mapping ''E501'' = Inr [Token CODE ''E501'', Token EOF []]
   \<and> tokenize_files_to_codes_mapping ''E501:'' =
       Inr [Token FILE ''E501'', Token COLON '':'', Token EOF []]
   \<and> tokenize_files_to_codes_mapping ''E501.py'' = Inr [Token FILE ''E501.py'', Token EOF []]"
proof -
  have 1: "takeWhile is_upper ''E501,W'' \<noteq> []" by (simp add: char_defs)
  have 2: "takeWhile is_upper ''E501: x'' \<noteq> []" by (simp add: char_defs)
  have 3: "takeWhile is_upper ''E501.py x'' \<noteq> []" by (simp add: char_defs)
  have 4: "tokenize_files_to_codes_mapping ''E501'' = Inr [Token CODE ''E501'', Token EOF []]"
    "tokenize_files_to_codes_mapping ''E501:'' =
       Inr [Token FILE ''E501'', Token COLON '':'', Token EOF []]"
    "tokenize_files_to_codes_mapping ''E501.py'' = Inr [Token FILE ''E501.py'', Token EOF []]"
    by (simp_all add: tokenizer_defs char_defs)
  have 5: "code_run ''E501,W'' = ''E501''" "drop 5 ''x.py:E501,W'' = ''E501,W''"
    "lookahead_sep '',W''" "\<not> lookahead_sep '': x''" "\<not> lookahead_sep ''.py x''"
    by (simp_all add: code_run_def lookahead_sep_def char_defs)
  from code_before_file [OF 1]
  have "drop 5 ''x.py:E501,W'' = ''E501,W'' \<longrightarrow>
    (\<exists>m ms. tokenize_loop ''x.py:E501,W'' 5 = Inr (m # ms)
      \<and> match_token ''x.py:E501,W'' m =
          (if lookahead_sep (drop (length (code_run ''E501,W'')) ''E501,W'')
           then Token CODE (code_run ''E501,W'')
           else Token FILE (takeWhile is_file_char ''E501,W'')))"
    by blast
  with 5 have 6: "\<exists>m ms. tokenize_loop ''x.py:E501,W'' 5 = Inr (m # ms)
        \<and> match_token ''x.py:E501,W'' m = Token CODE ''E501''"
    by simp
  have 7: "first_match FILE_LIST_TOKEN_TYPES ''E501,W'' = Some (CODE, 4)"
    "first_match FILE_LIST_TOKEN_TYPES ''E501: x'' = Some (FILE, 4)"
    "first_match FILE_LIST_TOKEN_TYPES ''E501.py x'' = Some (FILE, 7)"
    using code_before_file [OF 1] code_before_file [OF 2] code_before_file [OF 3]
    by (simp_all add: code_run_def lookahead_sep_def char_defs)
  from 1 4 5 6 7 show ?thesis by simp
qed

section \<open>Well-formed mappings are parsed as declared\<close>

lemma parse_token_sep: "is_sep t \<Longrightarrow> parse_token value st t = Inr (st\<lparr>seen_sep := True\<rparr>)"
  by (simp add: parse_token_def is_sep_def)

lemma parse_seps:
  "list_all is_sep ss \<Longrightarrow>
   parse_tokens value st (ss @ rest) =
     parse_tokens value (st\<lparr>seen_sep := seen_sep st \<or> ss \<noteq> []\<rparr>) rest"
  by (induction ss arbitrary: st) (simp_all add: parse_token_sep)

lemma parse_more_files:
  "more_names FILE fs ft \<Longrightarrow> \<not> seen_colon st \<Longrightarrow> \<not> seen_sep st \<Longrightarrow>
   parse_tokens value st (ft @ rest) =
     parse_tokens value (st\<lparr>filenames := filenames st @ fs\<rparr>) rest"
proof (induction fs ft arbitrary: st rule: more_names.induct)
  case none
  then show ?case by simp
next
  case (more ss xs ts x)
  let ?st1 = "st\<lparr>seen_sep := True\<rparr>"
  let ?st2 = "st\<lparr>filenames := filenames st @ [x]\<rparr>"
  have "parse_tokens value st ((ss @ Token FILE x # ts) @ rest)
      = parse_tokens value ?st1 (Token FILE x # ts @ rest)"
    using more.hyps(1,2) by (simp add: parse_seps)
  also have "parse_token value ?st1 (Token FILE x) = Inr ?st2"
    using more.prems by (simp add: parse_token_def)
  then have "parse_tokens value ?st1 (Token FILE x # ts @ rest)
      = parse_tokens value ?st2 (ts @ rest)" by simp
  also have "\<dots> = parse_tokens value (?st2\<lparr>filenames := filenames ?st2 @ xs\<rparr>) rest"
    using more.prems by (intro more.IH) simp_all
  finally show ?case by simp
qed

lemma parse_more_codes:
  "more_names CODE cs ct \<Longrightarrow> seen_colon st \<Longrightarrow> \<not> seen_sep st \<Longrightarrow>
   parse_tokens value st (ct @ rest) =
     parse_tokens value (st\<lparr>codes := codes st @ cs\<rparr>) rest"
proof (induction cs ct arbitrary: st rule: more_names.induct)
  case none
  then show ?case by simp
next
  case (more ss xs ts x)
  let ?st1 = "st\<lparr>seen_sep := True\<rparr>"
  let ?st2 = "st\<lparr>codes := codes st @ [x]\<rparr>"
  have "parse_tokens value st ((ss @ Token CODE x # ts) @ rest)
      = parse_tokens value ?st1 (Token CODE x # ts @ rest)"
    using more.hyps(1,2) by (simp add: parse_seps)
  also have "parse_token value ?st1 (Token CODE x) = Inr ?st2"
    using more.prems by (simp add: parse_token_def)
  then have "parse_tokens value ?st1 (Token CODE x # ts @ rest)
      = parse_tokens value ?st2 (ts @ rest)" by simp
  also have "\<dots> = parse_tokens value (?st2\<lparr>codes := codes ?st2 @ xs\<rparr>) rest"
    using more.prems by (intro more.IH) simp_all
  finally show ?case by simp
qed

lemma parse_first_file:
  assumes "group_start st"
  shows "parse_token value st (Token FILE f) =
    Inr \<lparr>seen_sep = False, seen_colon = False, filenames = [f], codes = [],
         ret = ret (reset st)\<rparr>"
  using assms by (auto simp: group_start_def parse_token_def reset_def)

lemma parse_group:
  assumes "group_tokens (fs, cs) gt" and "group_start st"
  shows "parse_tokens value st (gt @ rest) =
    parse_tokens value
      \<lparr>seen_sep = False, seen_colon = True, filenames = fs, codes = cs, ret = ret (reset st)\<rparr>
      rest"
proof -
  from assms(1) obtain f fs' c cs' ft s1 s2 ct x where
    fs: "fs = f # fs'" and cs: "cs = c # cs'"
    and gt: "gt = Token FILE f # ft @ s1 @ Token COLON x # s2 @ Token CODE c # ct"
    and mf: "more_names FILE fs' ft" and s1: "list_all is_sep s1"
    and s2: "list_all is_sep s2" and mc: "more_names CODE cs' ct"
    by (auto elim: group_tokens.cases)
  let ?r = "ret (reset st)"
  let ?a = "\<lparr>seen_sep = False, seen_colon = False, filenames = [f], codes = [], ret = ?r\<rparr>"
  let ?b = "\<lparr>seen_sep = False, seen_colon = False, filenames = f # fs', codes = [], ret = ?r\<rparr>"
  let ?c = "\<lparr>seen_sep = True, seen_colon = True, filenames = f # fs', codes = [], ret = ?r\<rparr>"
  let ?d = "\<lparr>seen_sep = False, seen_colon = True, filenames = f # fs', codes = [c], ret = ?r\<rparr>"
  have "parse_tokens value st (gt @ rest)
      = parse_tokens value ?a (ft @ s1 @ Token COLON x # s2 @ Token CODE c # ct @ rest)"
    using gt parse_first_file [OF assms(2)] by simp
  also have "\<dots> = parse_tokens value ?b (s1 @ Token COLON x # s2 @ Token CODE c # ct @ rest)"
    using parse_more_files [OF mf, of ?a] by simp
  also have "\<dots> = parse_tokens value ?c (s2 @ Token CODE c # ct @ rest)"
    using s1 by (simp add: parse_seps parse_token_def)
  also have "\<dots> = parse_tokens value ?d (ct @ rest)"
    using s2 by (simp add: parse_seps parse_token_def)
  also have "\<dots> = parse_tokens value
      \<lparr>seen_sep = False, seen_colon = True, filenames = f # fs', codes = c # cs', ret = ?r\<rparr> rest"
    using parse_more_codes [OF mc, of ?d] by simp
  finally show ?thesis using fs cs by simp
qed

lemma group_codes_nonempty: "group_tokens (fs, cs) gt \<Longrightarrow> cs \<noteq> []"
  by (auto elim: group_tokens.cases)

lemma parse_groups:
  "groups_tokens gs ts \<Longrightarrow> group_start st \<Longrightarrow>
   \<exists>st'. parse_tokens value st ts = Inr st' \<and> ret st' = ret (reset st) @ pairs gs"
proof (induction gs ts arbitrary: st rule: groups_tokens.induct)
  case (final g gt s x)
  obtain fs cs where g: "g = (fs, cs)" by (cases g)
  let ?G = "\<lparr>seen_sep = False, seen_colon = True, filenames = fs, codes = cs,
    ret = ret (reset st)\<rparr>"
  have "parse_tokens value st (gt @ s @ [Token EOF x]) = parse_tokens value ?G (s @ [Token EOF x])"
    using parse_group [of fs cs gt st] final g by simp
  also have "\<dots> = Inr (reset (?G\<lparr>seen_sep := s \<noteq> []\<rparr>))"
    using final.hyps(2) by (simp add: parse_seps parse_token_def)
  finally show ?case
    using group_codes_nonempty [of fs cs gt] final.hyps(1) g
    by (simp add: reset_def pairs_def)
next
  case (step g gt s gs ts)
  obtain fs cs where g: "g = (fs, cs)" by (cases g)
  let ?G = "\<lparr>seen_sep = True, seen_colon = True, filenames = fs, codes = cs,
    ret = ret (reset st)\<rparr>"
  have "parse_tokens value st (gt @ s @ ts) = parse_tokens value ?G ts"
    using parse_group [of fs cs gt st] step.hyps(1,2,3) step.prems g
    by (simp add: parse_seps)
  moreover have "group_start ?G" by (simp add: group_start_def)
  from step.IH [OF this] obtain st' where
    "parse_tokens value ?G ts = Inr st'" "ret st' = ret (reset ?G) @ pairs gs" by blast
  ultimately show ?case
    using group_codes_nonempty [of fs cs gt] step.hyps(1) g
    by (simp add: reset_def pairs_def)
qed

lemma parse_well_formed:
  assumes "well_formed tokens gs"
  shows "\<exists>st. parse_tokens value init_state tokens = Inr st \<and> ret st = pairs gs"
proof -
  from assms obtain s ts where t: "tokens = s @ ts" "list_all is_sep s" "groups_tokens gs ts"
    by (auto simp: well_formed_def)
  let ?st = "init_state\<lparr>seen_sep := seen_sep init_state \<or> s \<noteq> []\<rparr>"
  have "group_start ?st" by (simp add: group_start_def init_state_def)
  from parse_groups [OF t(3) this, of "value"] t(1,2) show ?thesis
    by (simp add: parse_seps) (simp add: reset_def init_state_def)
qed

lemma strip_empty: "strip value = [] \<Longrightarrow> list_all isspace value"
proof -
  assume "strip value = []"
  then have "dropWhile isspace (rev (dropWhile isspace value)) = []"
    by (simp add: strip_def)
  then have "\<forall>c \<in> set (dropWhile isspace value). isspace c"
    by (simp add: dropWhile_eq_Nil_conv)
  moreover have "dropWhile isspace value \<noteq> [] \<Longrightarrow> \<not> isspace (hd (dropWhile isspace value))"
    by (rule hd_dropWhile)
  ultimately have "dropWhile isspace value = []"
    by (cases "dropWhile isspace value") auto
  then show ?thesis
    by (simp add: dropWhile_eq_Nil_conv list_all_iff)
qed

lemma space_not_upper: "isspace c \<Longrightarrow> \<not> is_upper c"
  by (auto simp: char_defs Let_def)

lemma first_match_spaces:
  assumes "list_all isspace s" and "s \<noteq> []"
  shows "first_match FILE_LIST_TOKEN_TYPES s = Some (WS, length s)"
proof -
  from assms obtain c cs where s: "s = c # cs" and c: "isspace c" by (cases s) auto
  from assms(1) have tw: "takeWhile isspace s = s" and dw: "dropWhile isspace s = []"
    by (simp_all add: list_all_iff)
  have "match_code s = None"
    using c by (simp add: s match_code_def space_not_upper)
  moreover have "match_file s = None"
    using c by (simp add: s match_file_def is_file_char_def)
  moreover have "match_sep x s = None" for x
    by (simp add: match_sep_def dw)
  moreover have "match_ws s = Some (length s)"
    using assms(2) by (simp add: match_ws_def tw)
  ultimately show ?thesis
    by (simp add: FILE_LIST_TOKEN_TYPES_def)
qed

lemma tokenize_spaces:
  assumes "strip value = []" and "tokenize_files_to_codes_mapping value = Inr tokens"
  shows "list_all (\<lambda>t. tp t \<noteq> FILE) tokens"
proof (cases "value = []")
  case True
  with assms(2) show ?thesis
    by (auto simp: tokenize_files_to_codes_mapping_def tokenize_loop.simps)
next
  case False
  from first_match_spaces [OF strip_empty [OF assms(1)] False]
  have "tokenize_loop value 0 = Inr [(WS, 0, length value)]"
    using False by (simp add: tokenize_loop.simps [of "value" 0]
        tokenize_loop.simps [of "value" "length value"])
  with assms(2) show ?thesis
    by (auto simp: tokenize_files_to_codes_mapping_def match_token_def)
qed

lemma group_tokens_file: "group_tokens g gt \<Longrightarrow> \<exists>f. Token FILE f \<in> set gt"
  by (erule group_tokens.cases) auto

lemma groups_tokens_file: "groups_tokens gs ts \<Longrightarrow> \<exists>f. Token FILE f \<in> set ts"
  by (induction rule: groups_tokens.induct) (auto dest: group_tokens_file)

lemma well_formed_file: "well_formed tokens gs \<Longrightarrow> \<not> list_all (\<lambda>t. tp t \<noteq> FILE) tokens"
  by (auto simp: well_formed_def list_all_iff dest!: groups_tokens_file) force

text \<open>
  Claim C1. If the tokens of the input form a well-formed mapping with the groups \<open>gs\<close>,
  \<open>parse_files_to_codes_mapping\<close> returns one pair per declared filename, each with the
  codes of the filename's group in their order, the pairs in the order of declaration.
  In particular \<open>a.py,b.py: E501,E502\<close> gives
  \<open>[("a.py", ["E501","E502"]), ("b.py", ["E501","E502"])]\<close>.
\<close>

theorem parse_well_formed_mapping:
  "(tokenize_files_to_codes_mapping value = Inr tokens \<and> well_formed tokens gs \<longrightarrow>
      parse_files_to_codes_mapping value = Inr (pairs gs))
   \<and> parse_files_to_codes_mapping ''a.py,b.py: E501,E502'' =
       Inr [(''a.py'', [''E501'', ''E502'']), (''b.py'', [''E501'', ''E502''])]"
proof (intro conjI impI)
  assume a: "tokenize_files_to_codes_mapping value = Inr tokens \<and> well_formed tokens gs"
  then have "strip value \<noteq> []"
    using tokenize_spaces [of "value" tokens] well_formed_file [of tokens gs] by blast
  moreover from a parse_well_formed [of tokens gs "value"] obtain st where
    "parse_tokens value init_state tokens = Inr st" "ret st = pairs gs" by blast
  ultimately show "parse_files_to_codes_mapping value = Inr (pairs gs)"
    using a by (simp add: parse_files_to_codes_mapping_def)
next
  show "parse_files_to_codes_mapping ''a.py,b.py: E501,E502'' =
       Inr [(''a.py'', [''E501'', ''E502'']), (''b.py'', [''E501'', ''E502''])]"
    by (simp add: parser_defs tokenizer_defs char_defs)
qed

theorem parse_well_formed_mapping_witness:
  "tokenize_files_to_codes_mapping example_mapping = Inr example_tokens
   \<and> well_formed example_tokens
       [([''a.py'', ''b.py''], [''E501'', ''E502'']), ([''c.py''], [''W1''])]
   \<and> parse_files_to_codes_mapping example_mapping =
       Inr [(''a.py'', [''E501'', ''E502'']), (''b.py'', [''E501'', ''E502'']),
            (''c.py'', [''W1''])]"
proof -
  have tok: "tokenize_files_to_codes_mapping example_mapping = Inr example_tokens"
    by (simp add: example_mapping_def example_tokens_def tokenizer_defs char_defs)
  have f1: "more_names FILE [''b.py''] ([Token COMMA '',''] @ Token FILE ''b.py'' # [])"
    by (rule more_names.more; simp add: is_sep_def more_names.none)
  have c1: "more_names CODE [''E502''] ([Token WS []] @ Token CODE ''E502'' # [])"
    by (rule more_names.more; simp add: is_sep_def more_names.none)
  have g1: "group_tokens ([''a.py'', ''b.py''], [''E501'', ''E502''])
      (Token FILE ''a.py'' # ([Token COMMA '',''] @ Token FILE ''b.py'' # []) @ [] @
       Token COLON '':'' # [] @ Token CODE ''E501'' # ([Token WS []] @ Token CODE ''E502'' # []))"
    by (rule group_tokens.intros [OF f1 _ _ c1]) simp_all
  have g2: "group_tokens ([''c.py''], [''W1''])
      (Token FILE ''c.py'' # [] @ [] @ Token COLON '':'' # [] @ Token CODE ''W1'' # [])"
    by (rule group_tokens.intros) (simp_all add: more_names.none)
  have "groups_tokens [([''c.py''], [''W1''])]
      ((Token FILE ''c.py'' # [] @ [] @ Token COLON '':'' # [] @ Token CODE ''W1'' # []) @
       [] @ [Token EOF []])"
    by (rule groups_tokens.final [OF g2]) simp
  from groups_tokens.step [OF g1 _ _ this, of "[Token WS []]"]
  have "groups_tokens [([''a.py'', ''b.py''], [''E501'', ''E502'']), ([''c.py''], [''W1''])]
      (tl example_tokens)"
    by (simp add: example_tokens_def is_sep_def)
  then have wf: "well_formed example_tokens
       [([''a.py'', ''b.py''], [''E501'', ''E502'']), ([''c.py''], [''W1''])]"
    unfolding well_formed_def
    by (intro exI [of _ "[Token WS []]"] exI [of _ "tl example_tokens"])
      (simp add: example_tokens_def is_sep_def)
  from parse_well_formed_mapping [of example_mapping example_tokens
      "[([''a.py'', ''b.py''], [''E501'', ''E502'']), ([''c.py''], [''W1''])]"] tok wf
  show ?thesis by (simp add: pairs_def)
qed

section \<open>A file token where codes are expected\<close>

text \<open>
  Claim C3. When the parser is collecting codes (\<open>seen_colon\<close>), has seen a separator
  and holds at least one code, a \<open>FILE\<close> token ends the group: one pair per filename of
  the group, each with the group's codes, goes to the end of the result, and the token is
  the first filename of a new group. So \<open>a.py: E501 b.py: E502\<close> gives
  \<open>[("a.py", ["E501"]), ("b.py", ["E502"])]\<close>.
\<close>

theorem file_token_after_codes:
  "(seen_colon st \<and> seen_sep st \<and> codes st \<noteq> [] \<longrightarrow>
      parse_token value st (Token FILE f) =
        Inr \<lparr>seen_sep = False, seen_colon = False, filenames = [f], codes = [],
             ret = ret st @ map (\<lambda>filename. (filename, codes st)) (filenames st)\<rparr>)
   \<and> parse_files_to_codes_mapping ''a.py: E501 b.py: E502'' =
       Inr [(''a.py'', [''E501'']), (''b.py'', [''E502''])]"
proof
  show "seen_colon st \<and> seen_sep st \<and> codes st \<noteq> [] \<longrightarrow>
      parse_token value st (Token FILE f) =
        Inr \<lparr>seen_sep = False, seen_colon = False, filenames = [f], codes = [],
             ret = ret st @ map (\<lambda>filename. (filename, codes st)) (filenames st)\<rparr>"
    by (simp add: parse_token_def reset_def)
  show "parse_files_to_codes_mapping ''a.py: E501 b.py: E502'' =
       Inr [(''a.py'', [''E501'']), (''b.py'', [''E502''])]"
    by (simp add: parser_defs tokenizer_defs char_defs)
qed

theorem file_token_after_codes_witness:
  "parse_token ''a.py: E501 b.py: E502''
     \<lparr>seen_sep = True, seen_colon = True, filenames = [''a.py''], codes = [''E501''], ret = []\<rparr>
     (Token FILE ''b.py'') =
   Inr \<lparr>seen_sep = False, seen_colon = False, filenames = [''b.py''], codes = [],
        ret = [(''a.py'', [''E501''])]\<rparr>"
  using file_token_after_codes [of
    "\<lparr>seen_sep = True, seen_colon = True, filenames = [''a.py''], codes = [''E501''], ret = []\<rparr>"
    "''a.py: E501 b.py: E502''" "''b.py''"]
  by simp

text \<open>
  Claim C4, as stated: a \<open>FILE\<close> token right after a colon, before any code, is
  rejected with the error of the last branch. It is not: in \<open>a.py: b.py: E501\<close> the
  token \<open>b.py\<close> takes the \<open>FILE\<close> branch, whose \<open>_reset\<close> emits nothing for \<open>a.py\<close>
  (there are no codes), and the parse returns the pair for \<open>b.py\<close>.
\<close>

theorem file_token_after_colon_counterexample:
  "parse_files_to_codes_mapping ''a.py: b.py: E501'' = Inr [(''b.py'', [''E501''])]"
  by (simp add: parser_defs tokenizer_defs char_defs)

text \<open>
  Claim C4, amended. When the parser is collecting codes, has seen a separator and holds
  no code yet, a \<open>FILE\<close> token is accepted: the filenames collected so far are dropped
  with no pair emitted, and the token is the first filename of a new group.
\<close>

theorem file_token_after_colon:
  "(seen_colon st \<and> seen_sep st \<and> codes st = [] \<longrightarrow>
      parse_token value st (Token FILE f) =
        Inr \<lparr>seen_sep = False, seen_colon = False, filenames = [f], codes = [],
             ret = ret st\<rparr>)"
  by (simp add: parse_token_def reset_def)

theorem file_token_after_colon_witness:
  "parse_token ''a.py: b.py: E501''
     \<lparr>seen_sep = True, seen_colon = True, filenames = [''a.py''], codes = [], ret = []\<rparr>
     (Token FILE ''b.py'') =
   Inr \<lparr>seen_sep = False, seen_colon = False, filenames = [''b.py''], codes = [], ret = []\<rparr>"
  using file_token_after_colon [of
    "\<lparr>seen_sep = True, seen_colon = True, filenames = [''a.py''], codes = [], ret = []\<rparr>"
    "''a.py: b.py: E501''" "''b.py''"]
  by simp

section \<open>The error for a malformed mapping\<close>

lemma parse_token_error: "parse_token value st t = Inl e \<Longrightarrow> e = unexpected_token value"
  by (auto simp: parse_token_def split: if_splits)

lemma parse_tokens_error: "parse_tokens value st ts = Inl e \<Longrightarrow> e = unexpected_token value"
  by (induction ts arbitrary: st) (auto split: sum.splits dest: parse_token_error)

text \<open>
  Claim C7, as stated: the message of the error holds the full original input, indented.
  It does not when the input has whitespace at its ends: for \<open>a.py:: E501\<close> followed by
  a line feed, the message ends with the indented text without the line feed, and
  neither the input nor its indentation occurs in the message.
\<close>

theorem unexpected_token_counterexample:
  "parse_files_to_codes_mapping (''a.py:: E501'' @ [CHR 0x0A]) =
     Inl (ExecutionError (unexpected_token_header @ ''    a.py:: E501''))
   \<and> \<not> sublist (''a.py:: E501'' @ [CHR 0x0A]) (unexpected_token_header @ ''    a.py:: E501'')
   \<and> \<not> sublist (textwrap_indent (''a.py:: E501'' @ [CHR 0x0A]) ''    '')
        (unexpected_token_header @ ''    a.py:: E501'')"
proof -
  have 1: "parse_files_to_codes_mapping (''a.py:: E501'' @ [CHR 0x0A]) =
     Inl (ExecutionError (unexpected_token_header @ ''    a.py:: E501''))"
    by (simp add: parser_defs tokenizer_defs char_defs)
  have 2: "\<not> sublist (''a.py:: E501'' @ [CHR 0x0A]) (unexpected_token_header @ ''    a.py:: E501'')"
    by code_simp
  have 3: "\<not> sublist (textwrap_indent (''a.py:: E501'' @ [CHR 0x0A]) ''    '')
        (unexpected_token_header @ ''    a.py:: E501'')"
    by code_simp
  from 1 2 3 show ?thesis by blast
qed

text \<open>
  Claim C7, amended. \<open>a.py:: E501\<close> is rejected with an \<open>ExecutionError\<close>, and the
  message of every \<open>ExecutionError\<close> of \<open>parse_files_to_codes_mapping\<close> is the fixed
  heading followed by the input without the whitespace at its ends, indented by four
  spaces (\<open>textwrap.indent\<close> of \<open>value.strip()\<close>); this is the whole input, indented,
  when the input has no whitespace at its ends.
\<close>

theorem unexpected_token_message:
  "parse_files_to_codes_mapping ''a.py:: E501'' =
     Inl (ExecutionError (unexpected_token_header @ ''    a.py:: E501''))
   \<and> (parse_files_to_codes_mapping value = Inl (ExecutionError m) \<longrightarrow>
        m = unexpected_token_header @ textwrap_indent (strip value) ''    ''
        \<and> (strip value = value \<longrightarrow> m = unexpected_token_header @ textwrap_indent value ''    ''))"
proof
  show "parse_files_to_codes_mapping ''a.py:: E501'' =
     Inl (ExecutionError (unexpected_token_header @ ''    a.py:: E501''))"
    by (simp add: parser_defs tokenizer_defs char_defs)
  show "parse_files_to_codes_mapping value = Inl (ExecutionError m) \<longrightarrow>
        m = unexpected_token_header @ textwrap_indent (strip value) ''    ''
        \<and> (strip value = value \<longrightarrow> m = unexpected_token_header @ textwrap_indent value ''    '')"
  proof
    assume a: "parse_files_to_codes_mapping value = Inl (ExecutionError m)"
    then obtain ts st where "parse_tokens value st ts = Inl (ExecutionError m)
      \<or> tokenize_files_to_codes_mapping value = Inl (ExecutionError m)"
      by (auto simp: parse_files_to_codes_mapping_def split: if_splits sum.splits)
    moreover have "tokenize_files_to_codes_mapping value \<noteq> Inl (ExecutionError m)"
      by (rule tokenizer_no_error)
    ultimately have "ExecutionError m = unexpected_token value"
      by (auto dest: parse_tokens_error)
    then show "m = unexpected_token_header @ textwrap_indent (strip value) ''    ''
        \<and> (strip value = value \<longrightarrow> m = unexpected_token_header @ textwrap_indent value ''    '')"
      by (auto simp: unexpected_token_def)
  qed
qed

theorem unexpected_token_message_witness:
  "parse_files_to_codes_mapping ('' a.py::'' @ [CHR 0x0A] @ ''E501'' @ [CHR 0x0A]) =
     Inl (ExecutionError
       (unexpected_token_header @ ''    a.py::'' @ [CHR 0x0A] @ ''    E501''))
   \<and> unexpected_token_header @ ''    a.py::'' @ [CHR 0x0A] @ ''    E501'' =
       unexpected_token_header @
       textwrap_indent (strip ('' a.py::'' @ [CHR 0x0A] @ ''E501'' @ [CHR 0x0A])) ''    ''"
proof -
  have "parse_files_to_codes_mapping ('' a.py::'' @ [CHR 0x0A] @ ''E501'' @ [CHR 0x0A]) =
     Inl (ExecutionError
       (unexpected_token_header @ ''    a.py::'' @ [CHR 0x0A] @ ''    E501''))"
    by (simp add: parser_defs tokenizer_defs char_defs)
  with unexpected_token_message [of "'' a.py::'' @ [CHR 0x0A] @ ''E501'' @ [CHR 0x0A]"
      "unexpected_token_header @ ''    a.py::'' @ [CHR 0x0A] @ ''    E501''"]
  show ?thesis by simp
qed

section \<open>The mapping from paths to rows\<close>

lemma literal_Some: "literal p s = Some r \<Longrightarrow> s = p @ r"
  by (induction p s rule: literal.induct) (auto split: if_splits)

lemma hunk_header_prefix: "DIFF_HUNK_REGEXP line = Some g \<Longrightarrow> take 3 line = ''@@ ''"
  by (auto simp: DIFF_HUNK_REGEXP_def split: option.splits dest!: literal_Some)

lemma merge_hunks_Nil: "merge_hunks m [] = m"
  by (simp add: merge_hunks_def)

lemma merge_hunks_empty: "merge_hunks Map.empty hs = hunk_map hs"
  by (rule ext) (simp add: merge_hunks_def hunk_map_def)

lemma hunk_rows_Cons:
  "hunk_rows ((p, row, n) # hs) path =
     (if p = Some path then {row ..< row + n} else {}) \<union> hunk_rows hs path"
  by (simp add: hunk_rows_def)

lemma hunk_rows_absent: "Some path \<notin> fst ` set hs \<Longrightarrow> hunk_rows hs path = {}"
  by (fastforce simp: hunk_rows_def image_iff split: if_splits)

lemma merge_hunks_Cons:
  "merge_hunks (add_rows m p row n) hs = merge_hunks m ((Some p, row, n) # hs)"
proof (rule ext)
  fix path
  show "merge_hunks (add_rows m p row n) hs path = merge_hunks m ((Some p, row, n) # hs) path"
  proof (cases "path = p")
    case True
    then show ?thesis
      by (cases "Some p \<in> fst ` set hs")
        (simp_all add: merge_hunks_def add_rows_def hunk_rows_Cons hunk_rows_absent Un_ac)
  next
    case False
    then show ?thesis
      by (simp add: merge_hunks_def add_rows_def hunk_rows_Cons)
  qed
qed

lemma digits_nonempty: "digits s = Some (d, r) \<Longrightarrow> d \<noteq> []"
  by (auto simp: digits_def Let_def split: if_splits)

lemma opt_count_nonempty: "opt_count s = (Some d, r) \<Longrightarrow> d \<noteq> []"
  by (auto simp: opt_count_def split: list.splits if_splits option.splits dest: digits_nonempty)

lemma hunk_groups_nonempty:
  assumes "DIFF_HUNK_REGEXP line = Some (g1, g2)"
  shows "g1 \<noteq> []" and "g2 = Some g \<Longrightarrow> g \<noteq> []"
  using assms
  by (auto simp: DIFF_HUNK_REGEXP_def split: option.splits prod.splits if_splits
      dest: digits_nonempty opt_count_nonempty)

lemma hunk_group_values:
  assumes "DIFF_HUNK_REGEXP line = Some (g1, g2)"
  shows "group_value (Some g1) = int_of_digits g1"
    and "group_value g2 = (case g2 of None \<Rightarrow> 1 | Some c \<Rightarrow> int_of_digits c)"
  using hunk_groups_nonempty [OF assms]
  by (auto simp: group_value_def split: option.splits)

lemma counts_as_row_iff: "counts_as_row line \<longleftrightarrow> line = [] \<or> hd line \<noteq> CHR ''-''"
  by (cases line) (simp_all add: counts_as_row_def)

lemma diff_hunks_body:
  "diff_hunks (Some (Suc k)) path (line # lines) =
     diff_hunks (if counts_as_row line then Some k else Some (Suc k)) path lines"
  by (simp add: counts_as_row_iff)

lemma diff_hunks_path:
  assumes "rows = None \<or> rows = Some 0" and "take 3 line = ''+++''"
  shows "diff_hunks rows path (line # lines) = diff_hunks rows (Some (diff_path line)) lines"
  using assms by (elim disjE) simp_all

lemma diff_hunks_other:
  assumes "rows = None \<or> rows = Some 0" and "take 3 line \<noteq> ''+++''"
    and "DIFF_HUNK_REGEXP line = None"
  shows "diff_hunks rows path (line # lines) = diff_hunks rows path lines"
  using assms by (elim disjE) simp_all

lemma diff_hunks_header:
  assumes "rows = None \<or> rows = Some 0" and "take 3 line \<noteq> ''+++''"
    and "DIFF_HUNK_REGEXP line = Some (g1, g2)"
  shows "diff_hunks rows path (line # lines) =
    (path, group_value (Some g1), group_value g2) #
      diff_hunks (Some (group_value g2)) path lines"
  using assms hunk_group_values [OF assms(3)] by (elim disjE) (simp_all add: Let_def)

declare diff_hunks.simps(2) [simp del]

lemma diff_line_body:
  assumes "number_of_rows st = Some (Suc k)"
  shows "diff_line st line =
    Inr (st\<lparr>number_of_rows := (if counts_as_row line then Some k else Some (Suc k))\<rparr>)"
  using assms by (simp add: diff_line_def in_hunk_def)

lemma diff_line_path:
  assumes "\<not> in_hunk st" and "take 3 line = ''+++''"
  shows "diff_line st line = Inr (st\<lparr>current_path := Some (diff_path line)\<rparr>)"
  using assms by (simp add: diff_line_def)

lemma diff_line_other:
  assumes "\<not> in_hunk st" and "take 3 line \<noteq> ''+++''" and "DIFF_HUNK_REGEXP line = None"
  shows "diff_line st line = Inr st"
  using assms by (simp add: diff_line_def)

lemma diff_line_header:
  assumes "\<not> in_hunk st" and "take 3 line \<noteq> ''+++''"
    and "DIFF_HUNK_REGEXP line = Some (g1, g2)" and "current_path st = Some p"
  shows "diff_line st line =
    Inr (st\<lparr>number_of_rows := Some (group_value g2),
      parsed_paths := add_rows (parsed_paths st) p (group_value (Some g1)) (group_value g2)\<rparr>)"
  using assms by (simp add: diff_line_def Let_def)

lemma diff_lines_hunks:
  assumes "list_all (\<lambda>h. fst h \<noteq> None) (diff_hunks (number_of_rows st) (current_path st) lines)"
  shows "\<exists>st'. diff_lines st lines = Inr st' \<and>
    parsed_paths st' =
      merge_hunks (parsed_paths st) (diff_hunks (number_of_rows st) (current_path st) lines)"
  using assms
proof (induction lines arbitrary: st)
  case Nil
  then show ?case by (simp add: merge_hunks_Nil)
next
  case (Cons line lines)
  let ?hs = "diff_hunks (number_of_rows st) (current_path st) (line # lines)"
  have next_state: "\<exists>st'. diff_lines st (line # lines) = Inr st' \<and>
      parsed_paths st' = merge_hunks (parsed_paths st1) (diff_hunks (number_of_rows st1) (current_path st1) lines)"
    if "diff_line st line = Inr st1"
      and "list_all (\<lambda>h. fst h \<noteq> None) (diff_hunks (number_of_rows st1) (current_path st1) lines)"
    for st1
    using Cons.IH [OF that(2)] that(1) by simp
  show ?case
  proof (cases "in_hunk st")
    case True
    then obtain k where k: "number_of_rows st = Some (Suc k)"
      by (cases "number_of_rows st") (auto simp: in_hunk_def gr0_conv_Suc)
    let ?st1 = "st\<lparr>number_of_rows := (if counts_as_row line then Some k else Some (Suc k))\<rparr>"
    have hs: "?hs = diff_hunks (number_of_rows ?st1) (current_path ?st1) lines"
      by (simp only: k diff_hunks_body) simp
    from next_state [OF diff_line_body [OF k]] Cons.prems hs show ?thesis
      by simp
  next
    case False
    then have rows: "number_of_rows st = None \<or> number_of_rows st = Some 0"
      by (cases "number_of_rows st") (auto simp: in_hunk_def)
    show ?thesis
    proof (cases "take 3 line = ''+++''")
      case True
      let ?st1 = "st\<lparr>current_path := Some (diff_path line)\<rparr>"
      have hs: "?hs = diff_hunks (number_of_rows ?st1) (current_path ?st1) lines"
        using diff_hunks_path [OF rows True] by simp
      from next_state [OF diff_line_path [OF False True]] Cons.prems hs show ?thesis
        by simp
    next
      case nplus: False
      show ?thesis
      proof (cases "DIFF_HUNK_REGEXP line")
        case None
        have hs: "?hs = diff_hunks (number_of_rows st) (current_path st) lines"
          using diff_hunks_other [OF rows nplus None] by simp
        from next_state [OF diff_line_other [OF False nplus None]] Cons.prems hs show ?thesis
          by simp
      next
        case (Some g)
        obtain g1 g2 where g: "DIFF_HUNK_REGEXP line = Some (g1, g2)"
          using Some by (cases g) simp
        let ?row = "group_value (Some g1)"
        let ?n = "group_value g2"
        have hs: "?hs = (current_path st, ?row, ?n) # diff_hunks (Some ?n) (current_path st) lines"
          using diff_hunks_header [OF rows nplus g] by simp
        with Cons.prems obtain p where p: "current_path st = Some p"
          by (cases "current_path st") simp_all
        let ?st1 = "st\<lparr>number_of_rows := Some ?n,
          parsed_paths := add_rows (parsed_paths st) p ?row ?n\<rparr>"
        have tl: "list_all (\<lambda>h. fst h \<noteq> None)
            (diff_hunks (number_of_rows ?st1) (current_path ?st1) lines)"
          using Cons.prems hs by simp
        from next_state [OF diff_line_header [OF False nplus g p] tl] hs p show ?thesis
          by (simp add: merge_hunks_Cons)
      qed
    qed
  qed
qed

text \<open>
  Claim C2. If every hunk of the diff has a path (each hunk header follows a \<open>+++\<close>
  line), \<open>parse_unified_diff\<close> returns the mapping from each path that has a hunk to the
  union of the intervals of its hunks. At a hunk header, outside a hunk body, the
  interval from new-start to new-start + new-count (1 when the count group is missing)
  is added to the set the path had before. In particular \<open>@@ -1,3 +10,2 @@\<close> after
  \<open>+++ b/foo.py\<close> gives \<open>{"foo.py": {10, 11}}\<close>.
\<close>

theorem parse_unified_diff_hunks:
  "(list_all (\<lambda>h. fst h \<noteq> None) (diff_hunks None None (splitlines False diff)) \<longrightarrow>
      parse_unified_diff diff = Inr (hunk_map (diff_hunks None None (splitlines False diff))))
   \<and> (\<not> in_hunk st \<and> current_path st = Some path
        \<and> DIFF_HUNK_REGEXP line = Some (new_start, new_count) \<longrightarrow>
      diff_line st line =
        Inr (st\<lparr>number_of_rows :=
                 Some (case new_count of None \<Rightarrow> 1 | Some c \<Rightarrow> int_of_digits c),
               parsed_paths := (parsed_paths st)(path \<mapsto>
                 (case parsed_paths st path of None \<Rightarrow> {} | Some s \<Rightarrow> s) \<union>
                 {int_of_digits new_start ..<
                  int_of_digits new_start +
                    (case new_count of None \<Rightarrow> 1 | Some c \<Rightarrow> int_of_digits c)})\<rparr>))
   \<and> parse_unified_diff (''+++ b/foo.py'' @ [CHR 0x0A] @ ''@@ -1,3 +10,2 @@'') =
       Inr [''foo.py'' \<mapsto> {10, 11}]"
proof (intro conjI impI)
  assume "list_all (\<lambda>h. fst h \<noteq> None) (diff_hunks None None (splitlines False diff))"
  then have "list_all (\<lambda>h. fst h \<noteq> None)
    (diff_hunks (number_of_rows init_diff_state) (current_path init_diff_state)
      (splitlines False diff))"
    by (simp add: init_diff_state_def)
  from diff_lines_hunks [OF this]
  show "parse_unified_diff diff = Inr (hunk_map (diff_hunks None None (splitlines False diff)))"
    by (auto simp: parse_unified_diff_def init_diff_state_def merge_hunks_empty)
next
  assume a: "\<not> in_hunk st \<and> current_path st = Some path
    \<and> DIFF_HUNK_REGEXP line = Some (new_start, new_count)"
  then have "take 3 line \<noteq> ''+++''"
    using hunk_header_prefix [of line "(new_start, new_count)"] by simp
  with a diff_line_header [of st line new_start new_count path]
    hunk_group_values [of line new_start new_count]
  show "diff_line st line =
        Inr (st\<lparr>number_of_rows :=
                 Some (case new_count of None \<Rightarrow> 1 | Some c \<Rightarrow> int_of_digits c),
               parsed_paths := (parsed_paths st)(path \<mapsto>
                 (case parsed_paths st path of None \<Rightarrow> {} | Some s \<Rightarrow> s) \<union>
                 {int_of_digits new_start ..<
                  int_of_digits new_start +
                    (case new_count of None \<Rightarrow> 1 | Some c \<Rightarrow> int_of_digits c)})\<rparr>)"
    by (simp add: add_rows_def)
next
  show "parse_unified_diff (''+++ b/foo.py'' @ [CHR 0x0A] @ ''@@ -1,3 +10,2 @@'') =
       Inr [''foo.py'' \<mapsto> {10, 11}]"
    by (simp add: diff_defs char_defs insert_commute)
qed

theorem parse_unified_diff_hunks_witness:
  "diff_hunks None None (splitlines False example_diff) =
     [(Some ''foo.py'', 10, 2), (Some ''foo.py'', 21, 1), (Some ''bar.py'', 1, 1)]
   \<and> list_all (\<lambda>h. fst h \<noteq> None) (diff_hunks None None (splitlines False example_diff))
   \<and> parse_unified_diff example_diff =
       Inr [''foo.py'' \<mapsto> {10, 11, 21}, ''bar.py'' \<mapsto> {1}]"
proof -
  have hs: "diff_hunks None None (splitlines False example_diff) =
     [(Some ''foo.py'', 10, 2), (Some ''foo.py'', 21, 1), (Some ''bar.py'', 1, 1)]"
    by (simp add: example_diff_def diff_hunks.simps diff_defs char_defs)
  then have ok: "list_all (\<lambda>h. fst h \<noteq> None)
      (diff_hunks None None (splitlines False example_diff))"
    by simp
  have "hunk_map [(Some ''foo.py'', 10, 2), (Some ''foo.py'', 21, 1), (Some ''bar.py'', 1, 1)]
      = [''foo.py'' \<mapsto> {10, 11, 21}, ''bar.py'' \<mapsto> {1}]"
    by (rule ext) (auto simp: hunk_map_def hunk_rows_def)
  with parse_unified_diff_hunks [of example_diff] hs ok show ?thesis
    by simp
qed

section \<open>Inside a hunk body\<close>

text \<open>
  Claim C8. While \<open>parse_unified_diff\<close> is inside a hunk body (\<open>number_of_rows\<close> is set
  and positive), a line that is empty or does not start with \<open>-\<close> takes one off the
  countdown, a line that starts with \<open>-\<close> leaves it, and nothing else of the state
  changes, whatever the line is: this holds for a \<open>+++\<close> line and for a hunk header too,
  so neither sets the current path nor starts a hunk there.
\<close>

theorem hunk_body_line:
  assumes "number_of_rows st = Some n" and "0 < n"
  shows "diff_line st line =
    Inr (st\<lparr>number_of_rows :=
      Some (if line = [] \<or> hd line \<noteq> CHR ''-'' then n - 1 else n)\<rparr>)"
  using assms by (cases line) (auto simp: diff_line_def in_hunk_def counts_as_row_def)

theorem hunk_body_line_witness:
  "diff_line
     \<lparr>number_of_rows = Some 2, current_path = Some ''foo.py'', parsed_paths = Map.empty\<rparr>
     ''+++ b/bar.py'' =
   Inr \<lparr>number_of_rows = Some 1, current_path = Some ''foo.py'', parsed_paths = Map.empty\<rparr>
   \<and> diff_line
     \<lparr>number_of_rows = Some 2, current_path = Some ''foo.py'', parsed_paths = Map.empty\<rparr>
     ''@@ -1 +5,3 @@'' =
   Inr \<lparr>number_of_rows = Some 1, current_path = Some ''foo.py'', parsed_paths = Map.empty\<rparr>
   \<and> diff_line
     \<lparr>number_of_rows = Some 2, current_path = Some ''foo.py'', parsed_paths = Map.empty\<rparr>
     ''-x = 1'' =
   Inr \<lparr>number_of_rows = Some 2, current_path = Some ''foo.py'', parsed_paths = Map.empty\<rparr>"
  using
    hunk_body_line [of "\<lparr>number_of_rows = Some 2, current_path = Some ''foo.py'',
      parsed_paths = Map.empty\<rparr>" 2 "''+++ b/bar.py''"]
    hunk_body_line [of "\<lparr>number_of_rows = Some 2, current_path = Some ''foo.py'',
      parsed_paths = Map.empty\<rparr>" 2 "''@@ -1 +5,3 @@''"]
    hunk_body_line [of "\<lparr>number_of_rows = Some 2, current_path = Some ''foo.py'',
      parsed_paths = Map.empty\<rparr>" 2 "''-x = 1''"]
  by simp

section \<open>A hunk header with no path before it\<close>

lemma hunk_header_no_path:
  assumes "\<not> in_hunk st" and "current_path st = None" and "DIFF_HUNK_REGEXP line = Some g"
  shows "diff_line st line = Inl AssertionError"
  using assms hunk_header_prefix [OF assms(3)]
  by (cases g) (simp add: diff_line_def)

text \<open>
  As long as no \<open>+++\<close> line was read, the loop is outside every hunk body and has no
  path, so the first line that matches the hunk pattern fails the assertion.
\<close>

lemma no_path_lines:
  assumes "\<forall>l \<in> set pre. take 3 l \<noteq> ''+++''"
    and "\<not> in_hunk st" and "current_path st = None" and "DIFF_HUNK_REGEXP h \<noteq> None"
  shows "diff_lines st (pre @ h # post) = Inl AssertionError"
  using assms
proof (induction pre)
  case Nil
  then show ?case by (auto simp: hunk_header_no_path)
next
  case (Cons l pre)
  show ?case
  proof (cases "DIFF_HUNK_REGEXP l")
    case None
    with Cons.prems have "diff_line st l = Inr st"
      by (simp add: diff_line_def)
    with Cons show ?thesis by simp
  next
    case (Some g)
    with Cons.prems have "diff_line st l = Inl AssertionError"
      by (simp add: hunk_header_no_path)
    then show ?thesis by simp
  qed
qed

text \<open>
  Claim C9. If a line of the diff matches the hunk-header pattern and no line before it
  starts with \<open>+++\<close> (so no current path is set when the loop reaches a hunk header),
  \<open>parse_unified_diff\<close> fails with the \<open>AssertionError\<close> of its \<open>assert\<close>, which is not
  the \<open>ExecutionError\<close> raised for a user's input.
\<close>

theorem hunk_header_before_path:
  assumes "splitlines False diff = pre @ h # post"
    and "\<forall>l \<in> set pre. take 3 l \<noteq> ''+++''"
    and "DIFF_HUNK_REGEXP h \<noteq> None"
  shows "parse_unified_diff diff = Inl AssertionError"
  using no_path_lines [OF assms(2) _ _ assms(3), of init_diff_state post] assms(1)
  by (simp add: parse_unified_diff_def init_diff_state_def in_hunk_def)

theorem hunk_header_before_path_witness:
  "splitlines False
     (''--- a/foo.py'' @ [CHR 0x0A] @ ''@@ -1,3 +10,2 @@'' @ [CHR 0x0A] @ ''+++ b/foo.py'')
     = [''--- a/foo.py''] @ ''@@ -1,3 +10,2 @@'' # [''+++ b/foo.py'']
   \<and> list_all (\<lambda>l. take 3 l \<noteq> ''+++'') [''--- a/foo.py'']
   \<and> DIFF_HUNK_REGEXP ''@@ -1,3 +10,2 @@'' \<noteq> None
   \<and> parse_unified_diff
     (''--- a/foo.py'' @ [CHR 0x0A] @ ''@@ -1,3 +10,2 @@'' @ [CHR 0x0A] @ ''+++ b/foo.py'')
     = Inl AssertionError"
proof -
  have 1: "splitlines False
     (''--- a/foo.py'' @ [CHR 0x0A] @ ''@@ -1,3 +10,2 @@'' @ [CHR 0x0A] @ ''+++ b/foo.py'')
     = [''--- a/foo.py''] @ ''@@ -1,3 +10,2 @@'' # [''+++ b/foo.py'']"
    by (simp add: splitlines_def eol_def is_linebreak_def)
  have 2: "\<forall>l \<in> set [''--- a/foo.py'']. take 3 l \<noteq> ''+++''" by simp
  have 3: "DIFF_HUNK_REGEXP ''@@ -1,3 +10,2 @@'' \<noteq> None"
    by (simp add: DIFF_HUNK_REGEXP_def digits_def opt_count_def rest_of_line_def is_digit_def)
  show ?thesis using 1 2 3 hunk_header_before_path [OF 1 2 3] by simp
qed

section \<open>A hunk with no rows\<close>

text \<open>
  Claim C10. Outside a hunk body and with a current path, a hunk header whose new-count
  group is present and has the value 0 (as in \<open>@@ -5,2 +5,0 @@\<close>) stores the path as a
  key of the result: under it the set it had before, the empty set if it was no key yet.
  The countdown becomes 0, which is not inside a hunk body: the next line is read as a
  \<open>+++\<close> line or a hunk header, not skipped.
\<close>

theorem zero_count_hunk:
  assumes "\<not> in_hunk st" and "current_path st = Some path"
    and "DIFF_HUNK_REGEXP line = Some (group1, Some group2)"
    and "group_value (Some group2) = 0"
  shows "\<exists>st'. diff_line st line = Inr st'
    \<and> number_of_rows st' = Some 0
    \<and> current_path st' = Some path
    \<and> parsed_paths st' =
        (parsed_paths st)(path \<mapsto> (case parsed_paths st path of None \<Rightarrow> {} | Some s \<Rightarrow> s))
    \<and> (parsed_paths st path = None \<longrightarrow> parsed_paths st' path = Some {})
    \<and> \<not> in_hunk st'
    \<and> (\<forall>next. take 3 next = ''+++'' \<longrightarrow>
          diff_line st' next = Inr (st'\<lparr>current_path := Some (diff_path next)\<rparr>))"
  using assms hunk_header_prefix [OF assms(3)]
  by (simp add: diff_line_def add_rows_def in_hunk_def)

theorem zero_count_hunk_witness:
  "\<not> in_hunk \<lparr>number_of_rows = None, current_path = Some ''foo.py'', parsed_paths = Map.empty\<rparr>
   \<and> DIFF_HUNK_REGEXP ''@@ -5,2 +5,0 @@'' = Some (''5'', Some ''0'')
   \<and> group_value (Some ''0'') = 0
   \<and> diff_line \<lparr>number_of_rows = None, current_path = Some ''foo.py'', parsed_paths = Map.empty\<rparr>
        ''@@ -5,2 +5,0 @@''
      = Inr \<lparr>number_of_rows = Some 0, current_path = Some ''foo.py'',
             parsed_paths = [''foo.py'' \<mapsto> {}]\<rparr>
   \<and> diff_line \<lparr>number_of_rows = Some 0, current_path = Some ''foo.py'',
                  parsed_paths = [''foo.py'' \<mapsto> {}]\<rparr>
        ''+++ b/bar.py''
      = Inr \<lparr>number_of_rows = Some 0, current_path = Some ''bar.py'',
             parsed_paths = [''foo.py'' \<mapsto> {}]\<rparr>
   \<and> parse_unified_diff
        (''+++ b/foo.py'' @ [CHR 0x0A] @ ''@@ -5,2 +5,0 @@'' @ [CHR 0x0A] @
         ''+++ b/bar.py'' @ [CHR 0x0A] @ ''@@ -1 +7 @@'' @ [CHR 0x0A])
      = Inr [''foo.py'' \<mapsto> {}, ''bar.py'' \<mapsto> {7}]"
proof -
  let ?st = "\<lparr>number_of_rows = None, current_path = Some ''foo.py'',
    parsed_paths = (Map.empty :: string \<rightharpoonup> nat set)\<rparr>"
  let ?st' = "\<lparr>number_of_rows = Some 0, current_path = Some ''foo.py'',
    parsed_paths = [''foo.py'' \<mapsto> ({} :: nat set)]\<rparr>"
  have 1: "\<not> in_hunk ?st" by (simp add: in_hunk_def)
  have 2: "current_path ?st = Some ''foo.py''" by simp
  have 3: "DIFF_HUNK_REGEXP ''@@ -5,2 +5,0 @@'' = Some (''5'', Some ''0'')"
    by (simp add: DIFF_HUNK_REGEXP_def digits_def opt_count_def rest_of_line_def is_digit_def)
  have 4: "group_value (Some ''0'') = 0"
    by (simp add: group_value_def int_of_digits_def)
  have 5: "parse_unified_diff
        (''+++ b/foo.py'' @ [CHR 0x0A] @ ''@@ -5,2 +5,0 @@'' @ [CHR 0x0A] @
         ''+++ b/bar.py'' @ [CHR 0x0A] @ ''@@ -1 +7 @@'' @ [CHR 0x0A])
      = Inr [''foo.py'' \<mapsto> {}, ''bar.py'' \<mapsto> {7}]"
    by (simp add: diff_defs char_defs)
  from zero_count_hunk [OF 1 2 3 4] obtain st' where
    st': "diff_line ?st ''@@ -5,2 +5,0 @@'' = Inr st'" "number_of_rows st' = Some 0"
      "current_path st' = Some ''foo.py''" "parsed_paths st' = [''foo.py'' \<mapsto> {}]"
    and nxt: "\<forall>next. take 3 next = ''+++'' \<longrightarrow>
      diff_line st' next = Inr (st'\<lparr>current_path := Some (diff_path next)\<rparr>)"
    by auto
  from st'(2,3,4) have eq: "st' = ?st'" by (cases st') simp
  from nxt have "take 3 ''+++ b/bar.py'' = ''+++'' \<longrightarrow>
      diff_line st' ''+++ b/bar.py'' = Inr (st'\<lparr>current_path := Some (diff_path ''+++ b/bar.py'')\<rparr>)"
    by blast
  then have 6: "diff_line ?st' ''+++ b/bar.py''
      = Inr \<lparr>number_of_rows = Some 0, current_path = Some ''bar.py'',
             parsed_paths = [''foo.py'' \<mapsto> {}]\<rparr>"
    by (simp add: eq diff_path_def)
  from st'(1) eq have 7: "diff_line ?st ''@@ -5,2 +5,0 @@'' = Inr ?st'" by simp
  from 1 3 4 5 6 7 show ?thesis by simp
qed

end
